theory Spec2Isabelle
  imports Complex_Main "HOL-Library.Word"
begin

section \<open>The SCI polygon path planner (engines/sci/engine/kpathing.cpp)\<close>

text \<open>
  Conventions of the embedding.
  \<^item> A \<open>Common::Point\<close> is a pair of integer coordinates. The class is declared in
    common/rect.h; its coordinates are \<open>int16\<close> and the planner computes with them in C
    \<open>int\<close>. The model computes in unbounded integers: it describes the code on every input
    whose intermediate products stay inside \<open>int\<close>, as they do for 16 bit coordinates.
    Where the planner stores a computed coordinate in a \<open>Common::Point\<close>, the model
    stores its 16 bit value (\<open>int16\<close> below).
  \<^item> A \<open>Vertex *\<close> is an index into the list of all \<open>Vertex\<close> objects allocated so far
    (\<open>new Vertex\<close> appends to that list, so the new address is fresh).
  \<^item> A \<open>CircularVertexList\<close> is the list of its elements in \<open>_next\<close> order, starting at
    \<open>_head\<close>; \<open>CLIST_NEXT\<close> and \<open>CLIST_PREV\<close> are the cyclic successor and predecessor.
  \<^item> A \<open>Common::List\<close> is a list whose head is \<open>begin()\<close>.
  \<^item> The A* costs are \<open>uint32\<close>, hence 32 bit words.
\<close>

subsection \<open>Data model\<close>

datatype point = Point (px: int) (py: int)

text \<open>
  The value that an integer has once it is stored in an \<open>int16\<close> coordinate: the
  two's complement wrap-around into \<open>-32768 .. 32767\<close>.
\<close>

definition int16 :: "int \<Rightarrow> int" where
  "int16 n = (n + 32768) mod 65536 - 32768"

abbreviation (input) POLY_LAST_POINT :: int where "POLY_LAST_POINT \<equiv> 0x7777"

abbreviation (input) POLY_TOTAL_ACCESS :: int where "POLY_TOTAL_ACCESS \<equiv> 0"
abbreviation (input) POLY_NEAREST_ACCESS :: int where "POLY_NEAREST_ACCESS \<equiv> 1"
abbreviation (input) POLY_BARRED_ACCESS :: int where "POLY_BARRED_ACCESS \<equiv> 2"
abbreviation (input) POLY_CONTAINED_ACCESS :: int where "POLY_CONTAINED_ACCESS \<equiv> 3"

datatype containment = CONT_OUTSIDE | CONT_ON_EDGE | CONT_INSIDE

abbreviation (input) HUGE_DISTANCE :: "32 word" where "HUGE_DISTANCE \<equiv> 0xFFFFFFFF"

record FloatPoint =
  fx :: real
  fy :: real

record Vertex =
  v :: point
  costF :: "32 word"
  costG :: "32 word"
  path_prev :: "nat option"

record Polygon =
  ptype :: int
  vertices :: "nat list"

record PathfindingState =
  heap :: "Vertex list"
  polygons :: "Polygon list"
  vertex_start :: nat
  vertex_end :: nat
  vertex_index :: "nat list"
  prependPoint :: "point option"
  appendPoint :: "point option"
  width :: int
  height :: int

text \<open>The location of the vertex at an address.\<close>

definition vpt :: "Vertex list \<Rightarrow> nat \<Rightarrow> point" where
  "vpt h i = v (h ! i)"

text \<open>
  \<open>CLIST_FOREACH\<close> over a polygon visits the list in order; the edge that starts at a
  vertex ends at its \<open>CLIST_NEXT\<close>, which for the last element is the head again.
\<close>

definition clist_edges :: "'a list \<Rightarrow> ('a \<times> 'a) list" where
  "clist_edges vs = zip vs (rotate1 vs)"

subsection \<open>Geometry kernel\<close>

definition area :: "point \<Rightarrow> point \<Rightarrow> point \<Rightarrow> int" where
  "area a b c = (px b - px a) * (py a - py c) - (px c - px a) * (py a - py b)"

definition left :: "point \<Rightarrow> point \<Rightarrow> point \<Rightarrow> bool" where
  "left a b c = (area a b c > 0)"

definition collinear :: "point \<Rightarrow> point \<Rightarrow> point \<Rightarrow> bool" where
  "collinear a b c = (area a b c = 0)"

definition between :: "point \<Rightarrow> point \<Rightarrow> point \<Rightarrow> bool" where
  "between a b c =
     (if \<not> collinear a b c then False
      else if px a \<noteq> px b
        then (px a \<le> px c \<and> px c \<le> px b) \<or> (px a \<ge> px c \<and> px c \<ge> px b)
        else (py a \<le> py c \<and> py c \<le> py b) \<or> (py a \<ge> py c \<and> py c \<ge> py b))"

definition intersect_proper :: "point \<Rightarrow> point \<Rightarrow> point \<Rightarrow> point \<Rightarrow> bool" where
  "intersect_proper a b c d =
     (let ab = (left a b c \<and> left b a d) \<or> (left a b d \<and> left b a c);
          cd = (left c d a \<and> left d c b) \<or> (left c d b \<and> left d c a)
      in ab \<and> cd)"

subsection \<open>Polygon containment\<close>

text \<open>
  One pass of the loop body of \<open>contained\<close> over the edge \<open>(v1, v2)\<close>, on the counters
  \<open>(lcross, rcross)\<close>. \<open>None\<close> is the early \<open>return CONT_ON_EDGE\<close> taken when the query
  point is the first vertex of the edge.
\<close>

definition cross_edge :: "point \<Rightarrow> point \<Rightarrow> point \<Rightarrow> int \<times> int \<Rightarrow> (int \<times> int) option" where
  "cross_edge p v1 v2 lr =
     (if p = v1 then None
      else
        let rstrad = ((py v1 < py p) \<noteq> (py v2 < py p));
            lstrad = ((py v1 > py p) \<noteq> (py v2 > py p))
        in if lstrad \<or> rstrad then
             let x0 = px v2 * py v1 - px v1 * py v2 + (px v1 - px v2) * py p;
                 xq0 = py v1 - py v2;
                 x1 = (if xq0 < 0 then - x0 else x0);
                 xq = (if xq0 < 0 then - xq0 else xq0)
             in if rstrad \<and> x1 > xq * px p then Some (fst lr, snd lr + 1)
                else if lstrad \<and> x1 < xq * px p then Some (fst lr + 1, snd lr)
                else Some lr
           else Some lr)"

fun cross_loop :: "Vertex list \<Rightarrow> point \<Rightarrow> (nat \<times> nat) list \<Rightarrow> int \<times> int \<Rightarrow> (int \<times> int) option" where
  "cross_loop h p [] lr = Some lr"
| "cross_loop h p (e # es) lr =
     (case cross_edge p (vpt h (fst e)) (vpt h (snd e)) lr of
        None \<Rightarrow> None
      | Some lr' \<Rightarrow> cross_loop h p es lr')"

definition contained :: "Vertex list \<Rightarrow> point \<Rightarrow> Polygon \<Rightarrow> containment" where
  "contained h p polygon =
     (case cross_loop h p (clist_edges (vertices polygon)) (0, 0) of
        None \<Rightarrow> CONT_ON_EDGE
      | Some (lcross, rcross) \<Rightarrow>
          if (lcross + rcross) mod 2 = 1 then CONT_ON_EDGE
          else if rcross mod 2 = 1
            then (if ptype polygon = POLY_CONTAINED_ACCESS then CONT_OUTSIDE else CONT_INSIDE)
          else if ptype polygon = POLY_CONTAINED_ACCESS then CONT_INSIDE
          else CONT_OUTSIDE)"

text \<open>
  The geometric classification in the words of the specification: the signed ray-crossing
  count, where an odd total (or the query point being a vertex) means on the edge, an odd
  count to the right means inside, and anything else outside. The polygon type plays no
  part in it.
\<close>

definition ray_class :: "Vertex list \<Rightarrow> point \<Rightarrow> nat list \<Rightarrow> containment" where
  "ray_class h p vs =
     (case cross_loop h p (clist_edges vs) (0, 0) of
        None \<Rightarrow> CONT_ON_EDGE
      | Some (lcross, rcross) \<Rightarrow>
          if (lcross + rcross) mod 2 = 1 then CONT_ON_EDGE
          else if rcross mod 2 = 1 then CONT_INSIDE
          else CONT_OUTSIDE)"

fun invert :: "containment \<Rightarrow> containment" where
  "invert CONT_INSIDE = CONT_OUTSIDE"
| "invert CONT_OUTSIDE = CONT_INSIDE"
| "invert CONT_ON_EDGE = CONT_ON_EDGE"

subsection \<open>Cyclic vertex lists\<close>

text \<open>
  The position of a vertex in the list of its polygon, the polygon that owns a vertex, and
  the two neighbours of a vertex on its cycle. A vertex that no polygon owns is given
  itself as neighbour, like the only vertex of a one-element cycle.
\<close>

definition clist_pos :: "nat list \<Rightarrow> nat \<Rightarrow> nat" where
  "clist_pos vs i = length (takeWhile (\<lambda>j. j \<noteq> i) vs)"

definition owner :: "Polygon list \<Rightarrow> nat \<Rightarrow> Polygon option" where
  "owner ps i = find (\<lambda>P. i \<in> set (vertices P)) ps"

definition CLIST_NEXT :: "Polygon list \<Rightarrow> nat \<Rightarrow> nat" where
  "CLIST_NEXT ps i =
     (case owner ps i of
        None \<Rightarrow> i
      | Some P \<Rightarrow> vertices P ! ((clist_pos (vertices P) i + 1) mod length (vertices P)))"

definition CLIST_PREV :: "Polygon list \<Rightarrow> nat \<Rightarrow> nat" where
  "CLIST_PREV ps i =
     (case owner ps i of
        None \<Rightarrow> i
      | Some P \<Rightarrow>
          vertices P ! ((clist_pos (vertices P) i + length (vertices P) - 1) mod length (vertices P)))"

definition VERTEX_HAS_EDGES :: "Polygon list \<Rightarrow> nat \<Rightarrow> bool" where
  "VERTEX_HAS_EDGES ps i = (i \<noteq> CLIST_NEXT ps i)"

text \<open>\<open>VERTEX_HAS_EDGES(polygon->vertices.first())\<close>, read off the list of the polygon.\<close>

fun first_has_edges :: "nat list \<Rightarrow> bool" where
  "first_has_edges (a # b # vs) = (a \<noteq> b)"
| "first_has_edges vs = False"

definition insertHead :: "nat \<Rightarrow> nat list \<Rightarrow> nat list" where
  "insertHead elm vs = elm # vs"

definition insertAfter :: "nat \<Rightarrow> nat \<Rightarrow> nat list \<Rightarrow> nat list" where
  "insertAfter listelm elm vs =
     take (Suc (clist_pos vs listelm)) vs @ elm # drop (Suc (clist_pos vs listelm)) vs"

text \<open>\<open>reverse\<close> swaps the two links of every element and keeps the head.\<close>

fun reverse :: "'a list \<Rightarrow> 'a list" where
  "reverse [] = []"
| "reverse (a # vs) = a # rev vs"

text \<open>\<open>Common::List::erase\<close> at a position.\<close>

definition erase :: "nat \<Rightarrow> 'a list \<Rightarrow> 'a list" where
  "erase k xs = take k xs @ drop (Suc k) xs"

subsection \<open>Winding order\<close>

fun area_walk :: "Vertex list \<Rightarrow> nat \<Rightarrow> nat list \<Rightarrow> int" where
  "area_walk h first (a # b # vs) =
     area (vpt h first) (vpt h a) (vpt h b) + area_walk h first (b # vs)"
| "area_walk h first vs = 0"

definition polygon_area :: "Vertex list \<Rightarrow> Polygon \<Rightarrow> int" where
  "polygon_area h polygon =
     (case vertices polygon of [] \<Rightarrow> 0 | first # vs \<Rightarrow> area_walk h first vs)"

definition fix_vertex_order :: "Vertex list \<Rightarrow> Polygon \<Rightarrow> Polygon" where
  "fix_vertex_order h polygon =
     (let a = polygon_area h polygon
      in if (a > 0 \<and> ptype polygon = POLY_CONTAINED_ACCESS)
            \<or> (a < 0 \<and> ptype polygon \<noteq> POLY_CONTAINED_ACCESS)
         then polygon\<lparr>vertices := reverse (vertices polygon)\<rparr>
         else polygon)"

subsection \<open>Visibility\<close>

definition inside :: "Vertex list \<Rightarrow> Polygon list \<Rightarrow> point \<Rightarrow> nat \<Rightarrow> bool" where
  "inside h ps p vertex =
     (if VERTEX_HAS_EDGES ps vertex then
        let prev = vpt h (CLIST_PREV ps vertex);
            next = vpt h (CLIST_NEXT ps vertex);
            cur = vpt h vertex
        in if left prev cur next
           then left cur next p \<and> left prev cur p
           else left cur next p \<or> left prev cur p
      else False)"

text \<open>
  The body of the inner loop of \<open>visible_vertices\<close>: whether the scan stops (\<open>break\<close>) at
  the edge that starts at \<open>edge\<close>.
\<close>

definition edge_breaks :: "PathfindingState \<Rightarrow> nat \<Rightarrow> nat \<Rightarrow> nat \<Rightarrow> bool" where
  "edge_breaks s vertex_cur vertex edge =
     (if VERTEX_HAS_EDGES (polygons s) edge then
        if between (vpt (heap s) vertex_cur) (vpt (heap s) vertex) (vpt (heap s) edge)
        then inside (heap s) (polygons s) (vpt (heap s) vertex_cur) edge
             \<or> inside (heap s) (polygons s) (vpt (heap s) vertex) edge
        else intersect_proper (vpt (heap s) vertex_cur) (vpt (heap s) vertex)
               (vpt (heap s) edge) (vpt (heap s) (CLIST_NEXT (polygons s) edge))
      else False)"

text \<open>The inner loop: true when \<open>j\<close> reaches \<open>s->vertices\<close>.\<close>

fun edge_scan :: "PathfindingState \<Rightarrow> nat \<Rightarrow> nat \<Rightarrow> nat list \<Rightarrow> bool" where
  "edge_scan s vertex_cur vertex [] = True"
| "edge_scan s vertex_cur vertex (edge # es) =
     (if edge_breaks s vertex_cur vertex edge then False
      else edge_scan s vertex_cur vertex es)"

fun visible_loop :: "PathfindingState \<Rightarrow> nat \<Rightarrow> nat list \<Rightarrow> nat list \<Rightarrow> nat list" where
  "visible_loop s vertex_cur [] visVerts = visVerts"
| "visible_loop s vertex_cur (vertex # rest) visVerts =
     (if vertex = vertex_cur
         \<or> inside (heap s) (polygons s) (vpt (heap s) vertex) vertex_cur
         \<or> inside (heap s) (polygons s) (vpt (heap s) vertex_cur) vertex
      then visible_loop s vertex_cur rest visVerts
      else if edge_scan s vertex_cur vertex (vertex_index s)
        then visible_loop s vertex_cur rest (vertex # visVerts)
        else visible_loop s vertex_cur rest visVerts)"

definition visible_vertices :: "PathfindingState \<Rightarrow> nat \<Rightarrow> nat list" where
  "visible_vertices s vertex_cur = visible_loop s vertex_cur (vertex_index s) []"

definition pointOnScreenBorder :: "PathfindingState \<Rightarrow> point \<Rightarrow> bool" where
  "pointOnScreenBorder s p =
     (px p = 0 \<or> px p = width s - 1 \<or> py p = 0 \<or> py p = height s - 1)"

subsection \<open>Free points and near points\<close>

text \<open>
  The result of the functions that return \<open>PF_OK\<close>, \<open>PF_ERROR\<close> or \<open>PF_FATAL\<close> and
  write a point through \<open>ret\<close> on success.
\<close>

datatype pf_result = PF_OK point | PF_ERROR | PF_FATAL

text \<open>
  The two \<open>float\<close> coordinates of a \<open>FloatPoint\<close> are read as the real numbers they
  denote; \<open>floor(f.x + 0.5)\<close> is then the floor of the real sum. The probe \<open>p\<close> is a
  \<open>Common::Point\<close>: the constructor stores the two floors in its \<open>int16\<close>
  coordinates, and \<open>p.x++\<close>, \<open>p.y++\<close> and \<open>p.x--\<close> store the new coordinate there as
  well.
\<close>

definition find_free_point :: "Vertex list \<Rightarrow> FloatPoint \<Rightarrow> Polygon \<Rightarrow> pf_result" where
  "find_free_point h f polygon =
     (let p0 = Point (int16 \<lfloor>fx f + 1 / 2\<rfloor>) (int16 \<lfloor>fy f + 1 / 2\<rfloor>)
      in if contained h p0 polygon \<noteq> CONT_INSIDE then PF_OK p0
         else
           let p1 = Point (int16 \<lfloor>fx f\<rfloor>) (int16 \<lfloor>fy f\<rfloor>)
           in if contained h p1 polygon = CONT_INSIDE then
                let p2 = Point (int16 (px p1 + 1)) (py p1)
                in if contained h p2 polygon = CONT_INSIDE then
                     let p3 = Point (px p2) (int16 (py p2 + 1))
                     in if contained h p3 polygon = CONT_INSIDE then
                          let p4 = Point (int16 (px p3 - 1)) (py p3)
                          in if contained h p4 polygon = CONT_INSIDE then PF_FATAL
                             else PF_OK p4
                        else PF_OK p3
                   else PF_OK p2
              else PF_OK p1)"

text \<open>
  The parts of the planner that compute in \<open>float\<close>, or with \<open>Common::Point::sqrDist\<close>
  (declared in common/rect.h), are parameters of the model:
  \<^item> \<open>dist a b\<close> is \<open>(uint32)sqrt((float)a.sqrDist(b))\<close>;
  \<^item> \<open>near_p w ht h p polygon\<close> is the point \<open>near_p\<close> that the loop of
    \<open>findNearPoint\<close> leaves on a screen of width \<open>w\<close> and height \<open>ht\<close>: the
    closest clamped projection of \<open>p\<close> on an edge of the polygon;
  \<^item> \<open>isec s p q\<close> is what the loop of \<open>nearest_intersection\<close> leaves: the closest
    intersection and its polygon, or nothing when \<open>dist\<close> is still \<open>HUGE_DISTANCE\<close>;
  \<^item> \<open>uninit a\<close> is the content of the field \<open>costF\<close>, which the constructor of
    \<open>Vertex\<close> does not initialise, of the vertex allocated at address \<open>a\<close>.
\<close>

record env =
  dist :: "point \<Rightarrow> point \<Rightarrow> 32 word"
  near_p :: "int \<Rightarrow> int \<Rightarrow> Vertex list \<Rightarrow> point \<Rightarrow> Polygon \<Rightarrow> FloatPoint"
  isec :: "PathfindingState \<Rightarrow> point \<Rightarrow> point \<Rightarrow> (FloatPoint \<times> Polygon) option"
  uninit :: "nat \<Rightarrow> 32 word"

definition findNearPoint :: "env \<Rightarrow> PathfindingState \<Rightarrow> point \<Rightarrow> Polygon \<Rightarrow> pf_result" where
  "findNearPoint e s p polygon =
     find_free_point (heap s) (near_p e (width s) (height s) (heap s) p polygon) polygon"

definition nearest_intersection :: "env \<Rightarrow> PathfindingState \<Rightarrow> point \<Rightarrow> point \<Rightarrow> pf_result" where
  "nearest_intersection e s p q =
     (case isec e s p q of
        None \<Rightarrow> PF_ERROR
      | Some (f, ipolygon) \<Rightarrow> find_free_point (heap s) f ipolygon)"

definition nearbyPolygon :: "Vertex list \<Rightarrow> point \<Rightarrow> Polygon \<Rightarrow> bool" where
  "nearbyPolygon h p polygon =
     (contained h (Point (px p) (int16 (py p + 1))) polygon \<noteq> CONT_INSIDE
      \<or> contained h (Point (px p) (int16 (py p - 1))) polygon \<noteq> CONT_INSIDE
      \<or> contained h (Point (int16 (px p + 1)) (py p)) polygon \<noteq> CONT_INSIDE
      \<or> contained h (Point (int16 (px p - 1)) (py p)) polygon \<noteq> CONT_INSIDE)"

subsection \<open>Loops that need not end\<close>

text \<open>
  A loop whose body either leaves with a result (\<open>Inl\<close>) or hands on the next loop state
  (\<open>Inr\<close>). The value \<open>None\<close> means that the loop never leaves.
\<close>

partial_function (option) loop_until :: "('a \<Rightarrow> 'b + 'a) \<Rightarrow> 'a \<Rightarrow> 'b option" where
  "loop_until step x = (case step x of Inl r \<Rightarrow> Some r | Inr x' \<Rightarrow> loop_until step x')"

text \<open>
  The same loop cut off after a number of passes; it serves to evaluate a loop that leaves
  (see \<open>loop_fuel_sound\<close> below).
\<close>

fun loop_fuel :: "nat \<Rightarrow> ('a \<Rightarrow> 'b + 'a) \<Rightarrow> 'a \<Rightarrow> 'b option" where
  "loop_fuel 0 step x = None"
| "loop_fuel (Suc n) step x =
     (case step x of Inl r \<Rightarrow> Some r | Inr x' \<Rightarrow> loop_fuel n step x')"

text \<open>
  The states that a loop started at \<open>x\<close> passes through: \<open>x\<close> itself, and the state
  that the body hands on from a state it passes through.
\<close>

inductive loop_reaches :: "('a \<Rightarrow> 'b + 'a) \<Rightarrow> 'a \<Rightarrow> 'a \<Rightarrow> bool"
  for step :: "'a \<Rightarrow> 'b + 'a" and x :: 'a where
  start: "loop_reaches step x x"
| pass: "loop_reaches step x y \<Longrightarrow> step y = Inr z \<Longrightarrow> loop_reaches step x z"

subsection \<open>Fixing up the start and the end point\<close>

text \<open>
  The loop state of both fixups is the position \<open>it\<close> in the polygon list, the point
  \<open>new_start\<close> (\<open>new_end\<close>) and the pathfinding state. The loop leaves with the point, or
  with nothing for \<open>NULL\<close>. A \<open>continue\<close> restarts the body without moving \<open>it\<close>.
\<close>

definition fixup_start_step ::
  "env \<Rightarrow> point \<Rightarrow> nat \<times> point \<times> PathfindingState
     \<Rightarrow> (point option \<times> PathfindingState) + (nat \<times> point \<times> PathfindingState)" where
  "fixup_start_step e start = (\<lambda>(it, new_start, s).
     if it \<ge> length (polygons s) then Inl (Some new_start, s)
     else
       let polygon = polygons s ! it;
           cont = contained (heap s) start polygon;
           type = ptype polygon
       in if type = POLY_TOTAL_ACCESS then
            (if cont \<noteq> CONT_OUTSIDE
             then Inr (it, new_start, s\<lparr>polygons := erase it (polygons s)\<rparr>)
             else Inr (it + 1, new_start, s))
          else if type = POLY_CONTAINED_ACCESS \<and> cont = CONT_INSIDE
                  \<and> \<not> nearbyPolygon (heap s) start polygon
            then Inr (it, new_start, s\<lparr>polygons := erase it (polygons s)\<rparr>)
          else if type = POLY_CONTAINED_ACCESS \<or> type = POLY_BARRED_ACCESS
                  \<or> type = POLY_NEAREST_ACCESS then
            (if cont = CONT_INSIDE then
               (if prependPoint s \<noteq> None then Inr (it, new_start, s)
                else case findNearPoint e s start polygon of
                       PF_OK q \<Rightarrow> Inr (it + 1, q, s\<lparr>prependPoint := Some start\<rparr>)
                     | PF_ERROR \<Rightarrow> Inl (None, s)
                     | PF_FATAL \<Rightarrow> Inl (None, s))
             else Inr (it + 1, new_start, s))
          else Inr (it + 1, new_start, s))"

definition fixup_start_point ::
  "env \<Rightarrow> PathfindingState \<Rightarrow> point \<Rightarrow> (point option \<times> PathfindingState) option" where
  "fixup_start_point e s start = loop_until (fixup_start_step e start) (0, start, s)"

definition fixup_end_step ::
  "env \<Rightarrow> point \<Rightarrow> nat \<times> point \<times> PathfindingState
     \<Rightarrow> (point option \<times> PathfindingState) + (nat \<times> point \<times> PathfindingState)" where
  "fixup_end_step e end = (\<lambda>(it, new_end, s).
     if it \<ge> length (polygons s) then Inl (Some new_end, s)
     else
       let polygon = polygons s ! it;
           cont = contained (heap s) end polygon;
           type = ptype polygon
       in if type = POLY_TOTAL_ACCESS then
            (if cont \<noteq> CONT_OUTSIDE
             then Inr (it, new_end, s\<lparr>polygons := erase it (polygons s)\<rparr>)
             else Inr (it + 1, new_end, s))
          else if type = POLY_CONTAINED_ACCESS \<or> type = POLY_BARRED_ACCESS
                  \<or> type = POLY_NEAREST_ACCESS then
            (if cont \<noteq> CONT_OUTSIDE then
               (if appendPoint s \<noteq> None then Inr (it, new_end, s)
                else case findNearPoint e s end polygon of
                       PF_OK q \<Rightarrow>
                         Inr (it + 1, q,
                              if type = POLY_NEAREST_ACCESS then s\<lparr>appendPoint := Some end\<rparr> else s)
                     | PF_ERROR \<Rightarrow> Inl (None, s)
                     | PF_FATAL \<Rightarrow> Inl (None, s))
             else Inr (it + 1, new_end, s))
          else Inr (it + 1, new_end, s))"

definition fixup_end_point ::
  "env \<Rightarrow> PathfindingState \<Rightarrow> point \<Rightarrow> (point option \<times> PathfindingState) option" where
  "fixup_end_point e s end = loop_until (fixup_end_step e end) (0, end, s)"

subsection \<open>Merging a point into the polygon set\<close>

definition new_Vertex :: "env \<Rightarrow> nat \<Rightarrow> point \<Rightarrow> Vertex" where
  "new_Vertex e a p = \<lparr>v = p, costF = uninit e a, costG = HUGE_DISTANCE, path_prev = None\<rparr>"

text \<open>The first vertex of a cycle whose edge to its successor holds the point.\<close>

fun find_edge :: "Vertex list \<Rightarrow> point \<Rightarrow> (nat \<times> nat) list \<Rightarrow> nat option" where
  "find_edge h p [] = None"
| "find_edge h p (ed # es) =
     (if between (vpt h (fst ed)) (vpt h (snd ed)) p then Some (fst ed) else find_edge h p es)"

text \<open>
  The second loop of \<open>merge_point\<close>: the polygon list with the first edge that holds the
  point split by the new vertex, or nothing when no edge holds it.
\<close>

fun split_edge :: "Vertex list \<Rightarrow> point \<Rightarrow> nat \<Rightarrow> Polygon list \<Rightarrow> Polygon list option" where
  "split_edge h p v_new [] = None"
| "split_edge h p v_new (polygon # ps) =
     (if first_has_edges (vertices polygon) then
        (case find_edge h p (clist_edges (vertices polygon)) of
           Some vertex \<Rightarrow>
             Some (polygon\<lparr>vertices := insertAfter vertex v_new (vertices polygon)\<rparr> # ps)
         | None \<Rightarrow> map_option (\<lambda>ps'. polygon # ps') (split_edge h p v_new ps))
      else map_option (\<lambda>ps'. polygon # ps') (split_edge h p v_new ps))"

definition merge_point :: "env \<Rightarrow> PathfindingState \<Rightarrow> point \<Rightarrow> nat \<times> PathfindingState" where
  "merge_point e s p =
     (case find (\<lambda>vertex. vpt (heap s) vertex = p) (concat (map vertices (polygons s))) of
        Some vertex \<Rightarrow> (vertex, s)
      | None \<Rightarrow>
          let v_new = length (heap s);
              h = heap s @ [new_Vertex e v_new p]
          in case split_edge h p v_new (polygons s) of
               Some ps \<Rightarrow> (v_new, s\<lparr>heap := h, polygons := ps\<rparr>)
             | None \<Rightarrow>
                 (v_new, s\<lparr>heap := h,
                            polygons := \<lparr>ptype = POLY_BARRED_ACCESS, vertices = insertHead v_new []\<rparr>
                                        # polygons s\<rparr>))"

subsection \<open>Converting the input\<close>

text \<open>
  A polygon of the script: its type and its points (the selector \<open>size\<close> is the number of
  points). The game and the room decide the workarounds.
\<close>

record raw_polygon =
  rtype :: int
  rpoints :: "point list"

record game =
  gameId :: string
  currentRoomNumber :: int

definition convert_polygon ::
  "env \<Rightarrow> game \<Rightarrow> Vertex list \<Rightarrow> raw_polygon \<Rightarrow> Polygon option \<times> Vertex list" where
  "convert_polygon e g h raw =
     (if length (rpoints raw) = 0 then (None, h)
      else
        let size = (if length (rpoints raw) = 19 \<and> gameId g = ''lsl1sci''
                       \<and> currentRoomNumber g = 350 \<and> rpoints raw ! 18 = Point 108 137
                    then 17 else length (rpoints raw));
            (vs, h') = foldl (\<lambda>(vs, h') p. (insertHead (length h') vs, h' @ [new_Vertex e (length h') p]))
                         ([], h) (take size (rpoints raw))
        in (Some (fix_vertex_order h' \<lparr>ptype = rtype raw, vertices = vs\<rparr>), h'))"

fun change_polygons_opt_0 :: "Polygon list \<Rightarrow> Polygon list" where
  "change_polygons_opt_0 [] = []"
| "change_polygons_opt_0 (polygon # ps) =
     (if ptype polygon = POLY_TOTAL_ACCESS then change_polygons_opt_0 ps
      else (if ptype polygon = POLY_NEAREST_ACCESS
            then polygon\<lparr>ptype := POLY_TOTAL_ACCESS\<rparr> else polygon) # change_polygons_opt_0 ps)"

text \<open>
  A new \<open>PathfindingState\<close>. The two vertex pointers start as \<open>NULL\<close> and are assigned
  before they are read; the model starts them at address 0.
\<close>

definition new_PathfindingState :: "int \<Rightarrow> int \<Rightarrow> PathfindingState" where
  "new_PathfindingState w ht =
     \<lparr>heap = [], polygons = [], vertex_start = 0, vertex_end = 0, vertex_index = [],
      prependPoint = None, appendPoint = None, width = w, height = ht\<rparr>"

fun convert_all :: "env \<Rightarrow> game \<Rightarrow> raw_polygon list \<Rightarrow> PathfindingState \<Rightarrow> PathfindingState" where
  "convert_all e g [] s = s"
| "convert_all e g (raw # raws) s =
     (case convert_polygon e g (heap s) raw of
        (None, h) \<Rightarrow> convert_all e g raws s
      | (Some polygon, h) \<Rightarrow>
          convert_all e g raws (s\<lparr>heap := h, polygons := polygons s @ [polygon]\<rparr>))"

definition build_index :: "PathfindingState \<Rightarrow> PathfindingState" where
  "build_index s = s\<lparr>vertex_index := concat (map vertices (polygons s))\<rparr>"

definition merge_start_end :: "env \<Rightarrow> PathfindingState \<Rightarrow> point \<Rightarrow> point \<Rightarrow> PathfindingState" where
  "merge_start_end e s new_start new_end =
     (let (vs, s1) = merge_point e s new_start;
          s2 = s1\<lparr>vertex_start := vs\<rparr>;
          (ve, s3) = merge_point e s2 new_end
      in s3\<lparr>vertex_end := ve\<rparr>)"

text \<open>
  \<open>convert_polygon_set\<close>: the outer \<open>None\<close> is a fixup that never returns, the inner one
  is the result \<open>NULL\<close>.
\<close>

definition convert_polygon_set ::
  "env \<Rightarrow> game \<Rightarrow> raw_polygon list \<Rightarrow> point \<Rightarrow> point \<Rightarrow> int \<Rightarrow> int \<Rightarrow> int
     \<Rightarrow> PathfindingState option option" where
  "convert_polygon_set e g poly_list start end w ht opt =
     (let pf_s = convert_all e g poly_list (new_PathfindingState w ht)
      in if opt = 0 then
           (let s0 = pf_s\<lparr>polygons := change_polygons_opt_0 (polygons pf_s)\<rparr>
            in case nearest_intersection e s0 start end of
                 PF_FATAL \<Rightarrow> Some None
               | PF_OK intersection \<Rightarrow>
                   Some (Some (build_index
                     (merge_start_end e (s0\<lparr>prependPoint := Some start\<rparr>) intersection end)))
               | PF_ERROR \<Rightarrow> Some (Some (build_index (merge_start_end e s0 start end))))
         else
           (case fixup_start_point e pf_s start of
              None \<Rightarrow> None
            | Some (None, s1) \<Rightarrow> Some None
            | Some (Some new_start, s1) \<Rightarrow>
                (case fixup_end_point e s1 end of
                   None \<Rightarrow> None
                 | Some (None, s2) \<Rightarrow> Some None
                 | Some (Some new_end, s2) \<Rightarrow>
                     if gameId g = ''lsl5'' \<and> currentRoomNumber g = 660
                        \<and> Point 67 131 = new_start \<and> Point 229 101 = new_end
                     then Some (Some (build_index
                            (merge_start_end e (s2\<lparr>prependPoint := Some new_start\<rparr>)
                               (Point 77 107) new_end)))
                     else Some (Some (build_index (merge_start_end e s2 new_start new_end))))))"

subsection \<open>The search\<close>

text \<open>
  The search for the vertex of lowest \<open>costF\<close> in the open set: the position
  \<open>vertex_min_it\<close>, or nothing when it is still \<open>openSet.end()\<close>.
\<close>

fun find_min :: "Vertex list \<Rightarrow> nat list \<Rightarrow> nat \<Rightarrow> nat option \<Rightarrow> 32 word \<Rightarrow> nat option" where
  "find_min h [] k vertex_min_it m = vertex_min_it"
| "find_min h (vertex # vs) k vertex_min_it m =
     (if costF (h ! vertex) < m then find_min h vs (k + 1) (Some k) (costF (h ! vertex))
      else find_min h vs (k + 1) vertex_min_it m)"

text \<open>
  The body of the loop over the visible vertices, on the open set and the vertices, and the
  loop.
\<close>

definition relax_vertex ::
  "env \<Rightarrow> PathfindingState \<Rightarrow> bool \<Rightarrow> nat \<Rightarrow> nat list \<Rightarrow> nat
     \<Rightarrow> nat list \<times> Vertex list \<Rightarrow> nat list \<times> Vertex list" where
  "relax_vertex e s avoidScreenEdge vertex_min closedSet vertex oh =
     (if vertex \<in> set closedSet then oh
      else if avoidScreenEdge \<and> vertex \<noteq> vertex_end s
              \<and> pointOnScreenBorder s (vpt (snd oh) vertex)
        then oh
      else
        let openSet = (if vertex \<in> set (fst oh) then fst oh else vertex # fst oh);
            h = snd oh;
            new_dist = costG (h ! vertex_min) + dist e (vpt h vertex_min) (vpt h vertex)
        in if new_dist < costG (h ! vertex)
           then (openSet,
                 h[vertex := (h ! vertex)
                     \<lparr>costF := new_dist + dist e (vpt h vertex) (vpt h (vertex_end s)),
                      costG := new_dist,
                      path_prev := Some vertex_min\<rparr>])
           else (openSet, h))"

fun relax ::
  "env \<Rightarrow> PathfindingState \<Rightarrow> bool \<Rightarrow> nat \<Rightarrow> nat list \<Rightarrow> nat list
     \<Rightarrow> nat list \<times> Vertex list \<Rightarrow> nat list \<times> Vertex list" where
  "relax e s avoidScreenEdge vertex_min closedSet [] oh = oh"
| "relax e s avoidScreenEdge vertex_min closedSet (vertex # vs) oh =
     relax e s avoidScreenEdge vertex_min closedSet vs
       (relax_vertex e s avoidScreenEdge vertex_min closedSet vertex oh)"

text \<open>
  When no vertex of the open set has a \<open>costF\<close> below \<open>HUGE_DISTANCE\<close>, the
  iterator \<open>vertex_min_it\<close> is still \<open>openSet.end()\<close> and the code calls
  \<open>erase\<close> on it, which a list does not allow. The model ends the search with an error
  there.
\<close>

datatype error = EraseAtEnd

text \<open>
  One pass of the body of the \<open>while\<close> loop of \<open>AStar\<close>, on the open set, the closed set
  and the pathfinding state.
\<close>

definition AStar_step ::
  "env \<Rightarrow> bool \<Rightarrow> nat list \<times> nat list \<times> PathfindingState
     \<Rightarrow> (error + nat list \<times> nat list \<times> PathfindingState)
         + (nat list \<times> nat list \<times> PathfindingState)" where
  "AStar_step e avoidScreenEdge = (\<lambda>(openSet, closedSet, s).
     if openSet = [] then Inl (Inr (openSet, closedSet, s))
     else
       case find_min (heap s) openSet 0 None HUGE_DISTANCE of
         None \<Rightarrow> Inl (Inl EraseAtEnd)
       | Some k \<Rightarrow>
           let vertex_min = openSet ! k
           in if vertex_min = vertex_end s then Inl (Inr (openSet, closedSet, s))
              else
                let closedSet' = vertex_min # closedSet;
                    openSet' = erase k openSet;
                    visVerts = visible_vertices s vertex_min;
                    oh = relax e s avoidScreenEdge vertex_min closedSet' visVerts (openSet', heap s)
                in Inr (fst oh, closedSet', s\<lparr>heap := snd oh\<rparr>))"

definition AStar_init :: "env \<Rightarrow> PathfindingState \<Rightarrow> nat list \<times> nat list \<times> PathfindingState" where
  "AStar_init e s =
     ([vertex_start s], [],
      s\<lparr>heap := (heap s)[vertex_start s := (heap s ! vertex_start s)
          \<lparr>costF := dist e (vpt (heap s) (vertex_start s)) (vpt (heap s) (vertex_end s)),
           costG := 0\<rparr>]\<rparr>)"

text \<open>
  \<open>AStar\<close> leaves its open set, its closed set and the state with the costs and the
  predecessors; the closed set has one element for every pass that did not end the loop.
\<close>

definition AStar ::
  "env \<Rightarrow> PathfindingState \<Rightarrow> bool
     \<Rightarrow> (error + nat list \<times> nat list \<times> PathfindingState) option" where
  "AStar e s avoidScreenEdge = loop_until (AStar_step e avoidScreenEdge) (AStar_init e s)"

subsection \<open>The output\<close>

text \<open>The walk along \<open>path_prev\<close>, which collects the vertices from the end back to the start.\<close>

definition path_step :: "Vertex list \<Rightarrow> nat option \<times> nat list \<Rightarrow> nat list + (nat option \<times> nat list)" where
  "path_step h = (\<lambda>(vertex, path).
     case vertex of None \<Rightarrow> Inl path | Some u \<Rightarrow> Inr (path_prev (h ! u), u # path))"

definition path_walk :: "Vertex list \<Rightarrow> nat \<Rightarrow> nat list option" where
  "path_walk h vertex = loop_until (path_step h) (Some vertex, [])"

definition output_path :: "PathfindingState \<Rightarrow> point list option" where
  "output_path p =
     (if path_prev (heap p ! vertex_end p) = None then
        Some [case prependPoint p of Some q \<Rightarrow> q | None \<Rightarrow> vpt (heap p) (vertex_start p),
              vpt (heap p) (vertex_start p),
              Point POLY_LAST_POINT POLY_LAST_POINT]
      else
        case path_walk (heap p) (vertex_end p) of
          None \<Rightarrow> None
        | Some path \<Rightarrow>
            Some ((case prependPoint p of Some q \<Rightarrow> [q] | None \<Rightarrow> [])
                  @ map (vpt (heap p)) path
                  @ (case appendPoint p of Some q \<Rightarrow> [q] | None \<Rightarrow> [])
                  @ [Point POLY_LAST_POINT POLY_LAST_POINT]))"

subsection \<open>The kernel function\<close>

text \<open>
  The call with three arguments: the hit test of one polygon. The register it returns is
  zero or one, read as a truth value.
\<close>

definition kAvoidPath_contains :: "env \<Rightarrow> game \<Rightarrow> point \<Rightarrow> raw_polygon \<Rightarrow> bool" where
  "kAvoidPath_contains e g start raw =
     (case convert_polygon e g [] raw of
        (None, h) \<Rightarrow> False
      | (Some polygon, h) \<Rightarrow>
          contained h start (polygon\<lparr>ptype := POLY_BARRED_ACCESS\<rparr>) \<noteq> CONT_OUTSIDE)"

text \<open>
  The call with six to eight arguments, after the arguments are decoded: the points
  written to the output array, \<open>None\<close> when the call does not return.
\<close>

definition kAvoidPath ::
  "env \<Rightarrow> game \<Rightarrow> point \<Rightarrow> point \<Rightarrow> raw_polygon list \<Rightarrow> int \<Rightarrow> int \<Rightarrow> int
     \<Rightarrow> (error + point list) option" where
  "kAvoidPath e g start end poly_list w ht opt =
     (case convert_polygon_set e g poly_list start end w ht opt of
        None \<Rightarrow> None
      | Some None \<Rightarrow> Some (Inr [start, end, Point POLY_LAST_POINT POLY_LAST_POINT])
      | Some (Some p) \<Rightarrow>
          (case AStar e p True of
             None \<Rightarrow> None
           | Some (Inl err) \<Rightarrow> Some (Inl err)
           | Some (Inr (openSet, closedSet, p')) \<Rightarrow> map_option Inr (output_path p')))"

subsection \<open>A scene for the examples\<close>

text \<open>One square, away from the screen border, in anti-clockwise order.\<close>

definition sq_heap :: "Vertex list" where
  "sq_heap = map (\<lambda>p. \<lparr>v = p, costF = 0, costG = HUGE_DISTANCE, path_prev = None\<rparr>)
     [Point 10 10, Point 10 20, Point 20 20, Point 20 10]"

definition sq_poly :: "int \<Rightarrow> Polygon" where
  "sq_poly t = \<lparr>ptype = t, vertices = [0, 1, 2, 3]\<rparr>"

definition sq_state :: PathfindingState where
  "sq_state = \<lparr>heap = sq_heap, polygons = [sq_poly POLY_BARRED_ACCESS], vertex_start = 0,
     vertex_end = 2, vertex_index = [0, 1, 2, 3], prependPoint = None, appendPoint = None,
     width = 320, height = 190\<rparr>"

subsection \<open>Auxiliary notions for the proofs\<close>

text \<open>
  What one edge adds to the two counters of \<open>contained\<close> when the query point is not
  its first vertex.
\<close>

definition cross_delta :: "point \<Rightarrow> point \<Rightarrow> point \<Rightarrow> int \<times> int" where
  "cross_delta p v1 v2 =
     (let rstrad = ((py v1 < py p) \<noteq> (py v2 < py p));
          lstrad = ((py v1 > py p) \<noteq> (py v2 > py p))
      in if lstrad \<or> rstrad then
           let x0 = px v2 * py v1 - px v1 * py v2 + (px v1 - px v2) * py p;
               xq0 = py v1 - py v2;
               x1 = (if xq0 < 0 then - x0 else x0);
               xq = (if xq0 < 0 then - xq0 else xq0)
           in if rstrad \<and> x1 > xq * px p then (0, 1)
              else if lstrad \<and> x1 < xq * px p then (1, 0)
              else (0, 0)
         else (0, 0))"

text \<open>
  The condition under which the outer loop of \<open>visible_vertices\<close>, run from
  \<open>vertex_cur\<close>, pushes \<open>vertex\<close>.
\<close>

definition sees :: "PathfindingState \<Rightarrow> nat \<Rightarrow> nat \<Rightarrow> bool" where
  "sees s vertex_cur vertex =
     (\<not> (vertex = vertex_cur
          \<or> inside (heap s) (polygons s) (vpt (heap s) vertex) vertex_cur
          \<or> inside (heap s) (polygons s) (vpt (heap s) vertex_cur) vertex)
      \<and> edge_scan s vertex_cur vertex (vertex_index s))"

text \<open>Every vertex of a polygon is an allocated vertex (no dangling pointer).\<close>

definition heap_closed :: "PathfindingState \<Rightarrow> bool" where
  "heap_closed s =
     list_all (\<lambda>polygon. list_all (\<lambda>i. i < length (heap s)) (vertices polygon)) (polygons s)"

text \<open>
  An environment for the examples: the distance is the integer part of the Euclidean
  distance (Newton's iteration on integers, enough passes for the coordinates used), the
  near point is the projection (10, 15), there is no intersection, and uninitialised memory
  holds zero.
\<close>

fun newton :: "nat \<Rightarrow> int \<Rightarrow> int \<Rightarrow> int" where
  "newton 0 n r = r"
| "newton (Suc k) n r =
     (if r \<le> 0 then 0
      else if (r + n div r) div 2 \<ge> r then r
      else newton k n ((r + n div r) div 2))"

definition ex_dist :: "point \<Rightarrow> point \<Rightarrow> 32 word" where
  "ex_dist a b =
     (let n = (px a - px b) * (px a - px b) + (py a - py b) * (py a - py b)
      in word_of_int (newton 32 n n))"

definition ex_env :: env where
  "ex_env = \<lparr>dist = ex_dist, near_p = (\<lambda>w ht h p polygon. \<lparr>fx = 10, fy = 15\<rparr>),
              isec = (\<lambda>s p q. None), uninit = (\<lambda>a. 0)\<rparr>"

text \<open>
  The invariant of the loop of \<open>AStar\<close>, relative to the state the search started
  from: only the vertices change, the open and the closed set are duplicate free, disjoint
  and hold vertices of the index, and the end vertex is never closed.
\<close>

definition astar_inv :: "PathfindingState \<Rightarrow> nat list \<times> nat list \<times> PathfindingState \<Rightarrow> bool" where
  "astar_inv s = (\<lambda>(openSet, closedSet, s').
     s' = s\<lparr>heap := heap s'\<rparr>
     \<and> distinct openSet \<and> distinct closedSet \<and> set openSet \<inter> set closedSet = {}
     \<and> set openSet \<subseteq> set (vertex_index s) \<and> set closedSet \<subseteq> set (vertex_index s)
     \<and> vertex_end s \<notin> set closedSet)"

text \<open>
  A vertex the search may put on its open set when it avoids the screen edge: the start
  vertex, the end vertex, or a vertex that is not on the screen border. The second
  invariant adds to the first that the open and the closed set hold such vertices only,
  that the locations of the vertices do not change, and that every predecessor is closed.
\<close>

definition off_border :: "PathfindingState \<Rightarrow> nat \<Rightarrow> bool" where
  "off_border s u =
     (u = vertex_start s \<or> u = vertex_end s \<or> \<not> pointOnScreenBorder s (vpt (heap s) u))"

definition border_inv :: "PathfindingState \<Rightarrow> nat list \<times> nat list \<times> PathfindingState \<Rightarrow> bool" where
  "border_inv s = (\<lambda>(openSet, closedSet, s').
     astar_inv s (openSet, closedSet, s')
     \<and> (\<forall>u \<in> set openSet \<union> set closedSet. off_border s u)
     \<and> (\<forall>i. vpt (heap s') i = vpt (heap s) i)
     \<and> (\<forall>u \<in> set (vertex_index s). \<forall>w. path_prev (heap s' ! u) = Some w \<longrightarrow> w \<in> set closedSet))"

text \<open>The square scene on a screen whose right border runs through two of its vertices.\<close>

definition bd_state :: PathfindingState where
  "bd_state = sq_state\<lparr>width := 21\<rparr>"

text \<open>
  The two kinds of polygon that matter to the end-point fixup: a polygon that relocates the
  end point (one of the three restricting types, with the point inside or on its edge), and
  a polygon that the fixup removes (total access, with the point inside or on its edge).
\<close>

definition relocates :: "Vertex list \<Rightarrow> point \<Rightarrow> Polygon \<Rightarrow> bool" where
  "relocates h p polygon =
     ((ptype polygon = POLY_CONTAINED_ACCESS \<or> ptype polygon = POLY_BARRED_ACCESS
       \<or> ptype polygon = POLY_NEAREST_ACCESS)
      \<and> contained h p polygon \<noteq> CONT_OUTSIDE)"

definition dropped :: "Vertex list \<Rightarrow> point \<Rightarrow> Polygon \<Rightarrow> bool" where
  "dropped h p polygon =
     (ptype polygon = POLY_TOTAL_ACCESS \<and> contained h p polygon \<noteq> CONT_OUTSIDE)"

text \<open>
  The square as a near-point access polygon; and the same with a larger barred access square
  around it, so that a point inside the small square is inside both.
\<close>

definition nr_state :: PathfindingState where
  "nr_state = sq_state\<lparr>polygons := [sq_poly POLY_NEAREST_ACCESS]\<rparr>"

definition two_state :: PathfindingState where
  "two_state = sq_state
     \<lparr>heap := sq_heap
         @ map (\<lambda>p. \<lparr>v = p, costF = 0, costG = HUGE_DISTANCE, path_prev = None\<rparr>)
             [Point 5 5, Point 5 25, Point 25 25, Point 25 5],
      polygons := [sq_poly POLY_NEAREST_ACCESS,
                   \<lparr>ptype = POLY_BARRED_ACCESS, vertices = [4, 5, 6, 7]\<rparr>]\<rparr>"

text \<open>
  The same scene with the larger square alone, and with both squares of barred access. In
  the environment \<open>two_env\<close> the near point of the larger square is \<open>(5, 15)\<close>, on
  its left edge, and the near point of the small square is \<open>(10, 15)\<close> as before.
\<close>

definition bar_state :: PathfindingState where
  "bar_state = two_state\<lparr>polygons := [\<lparr>ptype = POLY_BARRED_ACCESS, vertices = [4, 5, 6, 7]\<rparr>]\<rparr>"

definition bb_state :: PathfindingState where
  "bb_state = two_state\<lparr>polygons := [sq_poly POLY_BARRED_ACCESS,
                   \<lparr>ptype = POLY_BARRED_ACCESS, vertices = [4, 5, 6, 7]\<rparr>]\<rparr>"

definition two_env :: env where
  "two_env = ex_env\<lparr>near_p := (\<lambda>w ht h p polygon.
     if vertices polygon = [4, 5, 6, 7] then \<lparr>fx = 5, fy = 15\<rparr> else \<lparr>fx = 10, fy = 15\<rparr>)\<rparr>"

text \<open>
  The state that the conversion builds for a scene without polygons (two vertices, each the
  only vertex of its own polygon), and its vertices after the first and after the second
  pass of the search.
\<close>

definition direct_polys :: "Polygon list" where
  "direct_polys = [\<lparr>ptype = POLY_BARRED_ACCESS, vertices = [1]\<rparr>,
                   \<lparr>ptype = POLY_BARRED_ACCESS, vertices = [0]\<rparr>]"

definition direct_state :: "env \<Rightarrow> point \<Rightarrow> point \<Rightarrow> int \<Rightarrow> int \<Rightarrow> PathfindingState" where
  "direct_state e start end w ht =
     \<lparr>heap = [new_Vertex e 0 start, new_Vertex e 1 end],
      polygons = direct_polys,
      vertex_start = 0, vertex_end = 1, vertex_index = [1, 0],
      prependPoint = None, appendPoint = None, width = w, height = ht\<rparr>"

definition direct_heap1 :: "env \<Rightarrow> point \<Rightarrow> point \<Rightarrow> Vertex list" where
  "direct_heap1 e start end =
     [\<lparr>v = start, costF = dist e start end, costG = 0, path_prev = None\<rparr>, new_Vertex e 1 end]"

definition direct_heap2 :: "env \<Rightarrow> point \<Rightarrow> point \<Rightarrow> Vertex list" where
  "direct_heap2 e start end =
     [\<lparr>v = start, costF = dist e start end, costG = 0, path_prev = None\<rparr>,
      \<lparr>v = end, costF = dist e start end + dist e end end, costG = dist e start end,
       path_prev = Some 0\<rparr>]"

text \<open>Two games for the examples; the second is the one with the workaround of room 660.\<close>

definition ex_game :: game where
  "ex_game = \<lparr>gameId = ''sq4'', currentRoomNumber = 1\<rparr>"

definition lsl5_game :: game where
  "lsl5_game = \<lparr>gameId = ''lsl5'', currentRoomNumber = 660\<rparr>"

text \<open>
  A polygon of type ContainedAccess that reaches both ends of the 16 bit range:
  \<open>(32767, 0)\<close>, \<open>(32766, 4000)\<close>, \<open>(-32768, 4000)\<close>, \<open>(-32768, -4000)\<close>,
  \<open>(32766, -4000)\<close>.
\<close>

definition wrap_heap :: "Vertex list" where
  "wrap_heap = map (\<lambda>p. \<lparr>v = p, costF = 0, costG = HUGE_DISTANCE, path_prev = None\<rparr>)
     [Point 32767 0, Point 32766 4000, Point (- 32768) 4000, Point (- 32768) (- 4000),
      Point 32766 (- 4000)]"

definition wrap_poly :: Polygon where
  "wrap_poly = \<lparr>ptype = POLY_CONTAINED_ACCESS, vertices = [0, 1, 2, 3, 4]\<rparr>"

text \<open>
  The classification in the words of the specification, on the outline given by its points
  in their cyclic order: a query point that is one of the points, or an odd total number of
  crossings of the horizontal ray, means on the edge; otherwise an odd number of crossings
  to the right means inside, and anything else outside.
\<close>

definition ray_points :: "point \<Rightarrow> point list \<Rightarrow> containment" where
  "ray_points p pts =
     (if p \<in> set pts then CONT_ON_EDGE
      else
        let lcross = (\<Sum>e\<leftarrow>clist_edges pts. fst (cross_delta p (fst e) (snd e)));
            rcross = (\<Sum>e\<leftarrow>clist_edges pts. snd (cross_delta p (fst e) (snd e)))
        in if (lcross + rcross) mod 2 = 1 then CONT_ON_EDGE
           else if rcross mod 2 = 1 then CONT_INSIDE
           else CONT_OUTSIDE)"

text \<open>The square of the examples as a polygon of the script.\<close>

definition sq_raw :: "int \<Rightarrow> raw_polygon" where
  "sq_raw t = \<lparr>rtype = t, rpoints = [Point 10 10, Point 10 20, Point 20 20, Point 20 10]\<rparr>"

text \<open>The loop equation, for the evaluation of loops that leave.\<close>

declare loop_until.simps [code]

section \<open>Proofs\<close>

subsection \<open>Containment: proofs\<close>

lemma clist_edges_fst: "map fst (clist_edges vs) = vs"
  by (simp add: clist_edges_def)

lemma cross_loop_vertex:
  "p \<in> set (map (\<lambda>e. vpt h (fst e)) es) \<Longrightarrow> cross_loop h p es lr = None"
proof (induction es arbitrary: lr)
  case Nil
  then show ?case by simp
next
  case (Cons e es)
  show ?case
  proof (cases "p = vpt h (fst e)")
    case True
    then show ?thesis by (simp add: cross_edge_def)
  next
    case False
    with Cons.prems have "p \<in> set (map (\<lambda>e. vpt h (fst e)) es)" by auto
    then have "\<And>lr'. cross_loop h p es lr' = None" by (rule Cons.IH)
    then show ?thesis by (simp split: option.split)
  qed
qed

lemma contained_ray_class:
  "contained h p polygon =
     (if ptype polygon = POLY_CONTAINED_ACCESS
      then invert (ray_class h p (vertices polygon))
      else ray_class h p (vertices polygon))"
  by (simp add: contained_def ray_class_def split: option.split prod.split)

lemma ray_class_vertex:
  assumes "p \<in> vpt h ` set vs"
  shows "ray_class h p vs = CONT_ON_EDGE"
proof -
  have "map (\<lambda>e. vpt h (fst e)) (clist_edges vs) = map (vpt h) (map fst (clist_edges vs))"
    by (simp add: comp_def)
  then have "map (\<lambda>e. vpt h (fst e)) (clist_edges vs) = map (vpt h) vs"
    by (simp only: clist_edges_fst)
  with assms have "p \<in> set (map (\<lambda>e. vpt h (fst e)) (clist_edges vs))" by simp
  then have "cross_loop h p (clist_edges vs) (0, 0) = None" by (rule cross_loop_vertex)
  then show ?thesis by (simp add: ray_class_def)
qed

text \<open>
  Claim C1. \<open>contained\<close> is the un-inverted ray-crossing classification, inverted
  between Inside and Outside exactly for a polygon of type ContainedAccess: for such a
  polygon it answers Inside exactly when the classification is Outside, and Outside exactly
  when the classification is Inside. Whatever the polygon type, it answers OnEdge exactly
  when the classification is OnEdge, that is when the loop left early or the total crossing
  count is odd, and it does so whenever the query point is a vertex of the polygon.
\<close>

theorem contained_inversion:
  "contained h p polygon =
     (if ptype polygon = POLY_CONTAINED_ACCESS
      then invert (ray_class h p (vertices polygon))
      else ray_class h p (vertices polygon))
   \<and> (ptype polygon = POLY_CONTAINED_ACCESS \<longrightarrow>
        (contained h p polygon = CONT_INSIDE \<longleftrightarrow> ray_class h p (vertices polygon) = CONT_OUTSIDE)
        \<and> (contained h p polygon = CONT_OUTSIDE \<longleftrightarrow> ray_class h p (vertices polygon) = CONT_INSIDE))
   \<and> (contained h p polygon = CONT_ON_EDGE \<longleftrightarrow> ray_class h p (vertices polygon) = CONT_ON_EDGE)
   \<and> (case cross_loop h p (clist_edges (vertices polygon)) (0, 0) of
        None \<Rightarrow> contained h p polygon = CONT_ON_EDGE
      | Some (lcross, rcross) \<Rightarrow>
          ((lcross + rcross) mod 2 = 1) = (contained h p polygon = CONT_ON_EDGE))
   \<and> (p \<in> vpt h ` set (vertices polygon) \<longrightarrow> contained h p polygon = CONT_ON_EDGE)"
proof -
  let ?r = "ray_class h p (vertices polygon)"
  have eq: "contained h p polygon =
      (if ptype polygon = POLY_CONTAINED_ACCESS then invert ?r else ?r)"
    by (rule contained_ray_class)
  have e: "contained h p polygon = CONT_ON_EDGE \<longleftrightarrow> ?r = CONT_ON_EDGE"
    by (cases ?r) (simp_all add: eq)
  have i: "ptype polygon = POLY_CONTAINED_ACCESS \<Longrightarrow>
      (contained h p polygon = CONT_INSIDE \<longleftrightarrow> ?r = CONT_OUTSIDE)"
    by (cases ?r) (simp_all add: eq)
  have o: "ptype polygon = POLY_CONTAINED_ACCESS \<Longrightarrow>
      (contained h p polygon = CONT_OUTSIDE \<longleftrightarrow> ?r = CONT_INSIDE)"
    by (cases ?r) (simp_all add: eq)
  have vx: "p \<in> vpt h ` set (vertices polygon) \<Longrightarrow> contained h p polygon = CONT_ON_EDGE"
    using e ray_class_vertex by simp
  have odd: "case cross_loop h p (clist_edges (vertices polygon)) (0, 0) of
        None \<Rightarrow> contained h p polygon = CONT_ON_EDGE
      | Some (lcross, rcross) \<Rightarrow>
          ((lcross + rcross) mod 2 = 1) = (contained h p polygon = CONT_ON_EDGE)"
    by (simp add: contained_def split: option.split prod.split)
  from eq e i o vx odd show ?thesis by blast
qed

theorem contained_inversion_witness:
  "ptype (sq_poly POLY_CONTAINED_ACCESS) = POLY_CONTAINED_ACCESS
   \<and> ray_class sq_heap (Point 15 15) (vertices (sq_poly POLY_CONTAINED_ACCESS)) = CONT_INSIDE
   \<and> contained sq_heap (Point 15 15) (sq_poly POLY_CONTAINED_ACCESS) = CONT_OUTSIDE
   \<and> ray_class sq_heap (Point 30 15) (vertices (sq_poly POLY_CONTAINED_ACCESS)) = CONT_OUTSIDE
   \<and> contained sq_heap (Point 30 15) (sq_poly POLY_CONTAINED_ACCESS) = CONT_INSIDE
   \<and> Point 10 10 \<in> vpt sq_heap ` set (vertices (sq_poly POLY_CONTAINED_ACCESS))
   \<and> contained sq_heap (Point 10 10) (sq_poly POLY_CONTAINED_ACCESS) = CONT_ON_EDGE"
proof -
  have t: "ptype (sq_poly POLY_CONTAINED_ACCESS) = POLY_CONTAINED_ACCESS"
    by (simp add: sq_poly_def)
  have a: "ray_class sq_heap (Point 15 15) (vertices (sq_poly POLY_CONTAINED_ACCESS)) = CONT_INSIDE"
    by code_simp
  have b: "ray_class sq_heap (Point 30 15) (vertices (sq_poly POLY_CONTAINED_ACCESS)) = CONT_OUTSIDE"
    by code_simp
  have c: "Point 10 10 \<in> vpt sq_heap ` set (vertices (sq_poly POLY_CONTAINED_ACCESS))"
    by (simp add: sq_poly_def sq_heap_def vpt_def)
  from t a contained_inversion [of sq_heap "Point 15 15" "sq_poly POLY_CONTAINED_ACCESS"]
  have a': "contained sq_heap (Point 15 15) (sq_poly POLY_CONTAINED_ACCESS) = CONT_OUTSIDE"
    by simp
  from t b contained_inversion [of sq_heap "Point 30 15" "sq_poly POLY_CONTAINED_ACCESS"]
  have b': "contained sq_heap (Point 30 15) (sq_poly POLY_CONTAINED_ACCESS) = CONT_INSIDE"
    by simp
  from c contained_inversion [of sq_heap "Point 10 10" "sq_poly POLY_CONTAINED_ACCESS"]
  have c': "contained sq_heap (Point 10 10) (sq_poly POLY_CONTAINED_ACCESS) = CONT_ON_EDGE"
    by blast
  from t a a' b b' c c' show ?thesis by blast
qed

subsection \<open>The hit test\<close>

lemma cross_edge_delta:
  "cross_edge p v1 v2 lr =
     (if p = v1 then None
      else Some (fst lr + fst (cross_delta p v1 v2), snd lr + snd (cross_delta p v1 v2)))"
  by (simp add: cross_edge_def cross_delta_def Let_def)

lemma cross_delta_swap: "cross_delta p v2 v1 = cross_delta p v1 v2"
proof (cases "py v1 = py v2")
  case True
  then show ?thesis by (simp add: cross_delta_def Let_def)
next
  case False
  have x: "px v1 * py v2 - px v2 * py v1 + (px v2 - px v1) * py p
           = - (px v2 * py v1 - px v1 * py v2 + (px v1 - px v2) * py p)"
    by (simp add: algebra_simps)
  have q: "py v2 - py v1 = - (py v1 - py v2)" by simp
  have s1: "((py v2 < py p) \<noteq> (py v1 < py p)) = ((py v1 < py p) \<noteq> (py v2 < py p))" by auto
  have s2: "((py v2 > py p) \<noteq> (py v1 > py p)) = ((py v1 > py p) \<noteq> (py v2 > py p))" by auto
  from False have "py v1 - py v2 < 0 \<or> py v1 - py v2 > 0" by auto
  then show ?thesis
    unfolding cross_delta_def Let_def x q s1 s2 by auto
qed

lemma cross_loop_sum:
  "cross_loop h p es lr =
     (if p \<in> set (map (\<lambda>e. vpt h (fst e)) es) then None
      else Some (fst lr + (\<Sum>e\<leftarrow>es. fst (cross_delta p (vpt h (fst e)) (vpt h (snd e)))),
                 snd lr + (\<Sum>e\<leftarrow>es. snd (cross_delta p (vpt h (fst e)) (vpt h (snd e))))))"
proof (induction es arbitrary: lr)
  case Nil
  then show ?case by simp
next
  case (Cons e es)
  show ?case
  proof (cases "p = vpt h (fst e)")
    case True
    then show ?thesis by (simp add: cross_edge_delta)
  next
    case False
    then show ?thesis
      by (simp add: cross_edge_delta Cons.IH algebra_simps)
  qed
qed

lemma clist_edges_reverse:
  "clist_edges (reverse vs) = rev (map prod.swap (clist_edges vs))"
proof (cases vs)
  case Nil
  then show ?thesis by (simp add: clist_edges_def)
next
  case (Cons a rest)
  have "map prod.swap (zip (a # rest) (rest @ [a])) = zip (rest @ [a]) (a # rest)"
    by (simp add: zip_commute [of "rest @ [a]" "a # rest"] prod.swap_def case_prod_beta)
  then have "rev (map prod.swap (zip (a # rest) (rest @ [a]))) = rev (zip (rest @ [a]) (a # rest))"
    by simp
  also have "\<dots> = zip (rev (rest @ [a])) (rev (a # rest))"
    by (rule zip_rev [symmetric]) simp
  finally show ?thesis
    by (simp add: clist_edges_def Cons)
qed

lemma clist_edges_snd: "set (map snd (clist_edges vs)) = set vs"
  by (cases vs) (simp_all add: clist_edges_def)

lemma ray_class_reverse: "ray_class h p (reverse vs) = ray_class h p vs"
proof -
  let ?es = "clist_edges vs"
  let ?rs = "rev (map prod.swap ?es)"
  have v: "p \<in> set (map (\<lambda>e. vpt h (fst e)) ?rs) \<longleftrightarrow> p \<in> set (map (\<lambda>e. vpt h (fst e)) ?es)"
  proof -
    have "set (map (\<lambda>e. vpt h (fst e)) ?rs) = vpt h ` set (map snd ?es)"
      by (simp add: image_image)
    also have "\<dots> = vpt h ` set vs" by (simp only: clist_edges_snd)
    also have "\<dots> = vpt h ` set (map fst ?es)" by (simp only: clist_edges_fst)
    also have "\<dots> = set (map (\<lambda>e. vpt h (fst e)) ?es)" by (simp add: image_image)
    finally show ?thesis by simp
  qed
  have f: "(\<Sum>e\<leftarrow>?rs. fst (cross_delta p (vpt h (fst e)) (vpt h (snd e))))
           = (\<Sum>e\<leftarrow>?es. fst (cross_delta p (vpt h (fst e)) (vpt h (snd e))))"
    by (simp add: rev_map [symmetric] sum_list_rev comp_def cross_delta_swap [of p])
  have g: "(\<Sum>e\<leftarrow>?rs. snd (cross_delta p (vpt h (fst e)) (vpt h (snd e))))
           = (\<Sum>e\<leftarrow>?es. snd (cross_delta p (vpt h (fst e)) (vpt h (snd e))))"
    by (simp add: rev_map [symmetric] sum_list_rev comp_def cross_delta_swap [of p])
  have "cross_loop h p ?rs (0, 0) = cross_loop h p ?es (0, 0)"
    unfolding cross_loop_sum [of h p ?rs] cross_loop_sum [of h p ?es] using v f g by simp
  then show ?thesis by (simp add: ray_class_def clist_edges_reverse)
qed


lemma ray_class_fix_vertex_order:
  "ray_class h p (vertices (fix_vertex_order h polygon)) = ray_class h p (vertices polygon)"
  by (simp add: fix_vertex_order_def Let_def ray_class_reverse)

lemma contained_hit_test:
  "contained h p ((fix_vertex_order h polygon)\<lparr>ptype := POLY_BARRED_ACCESS\<rparr>)
   = ray_class h p (vertices polygon)"
  by (simp add: contained_ray_class ray_class_fix_vertex_order)

lemma kAvoidPath_contains_type:
  "kAvoidPath_contains e g start (raw\<lparr>rtype := t\<rparr>) = kAvoidPath_contains e g start raw"
  by (simp add: kAvoidPath_contains_def convert_polygon_def Let_def contained_hit_test
      split: prod.split)

lemma clist_edges_map: "clist_edges (map f vs) = map (\<lambda>e. (f (fst e), f (snd e))) (clist_edges vs)"
  by (simp add: clist_edges_def rotate1_map zip_map_map case_prod_beta)

lemma ray_class_points: "ray_class h p vs = ray_points p (map (vpt h) vs)"
proof -
  have "map (\<lambda>e. vpt h (fst e)) (clist_edges vs) = map (vpt h) (map fst (clist_edges vs))"
    by (simp add: comp_def)
  then have m: "map (\<lambda>e. vpt h (fst e)) (clist_edges vs) = map (vpt h) vs"
    by (simp only: clist_edges_fst)
  show ?thesis
    unfolding ray_class_def ray_points_def cross_loop_sum m clist_edges_map
    by (simp add: comp_def Let_def)
qed

lemma zip_rotate1:
  "length xs = length ys \<Longrightarrow> zip (rotate1 xs) (rotate1 ys) = rotate1 (zip xs ys)"
  by (cases xs; cases ys) simp_all

lemma clist_edges_rotate1: "clist_edges (rotate1 xs) = rotate1 (clist_edges xs)"
  by (simp add: clist_edges_def zip_rotate1)

lemma sum_list_rotate1: "sum_list (map f (rotate1 xs)) = sum_list (map f xs)" for f :: "'a \<Rightarrow> int"
  by (cases xs) simp_all

lemma ray_points_rotate1: "ray_points p (rotate1 pts) = ray_points p pts"
  by (simp add: ray_points_def clist_edges_rotate1 sum_list_rotate1)

lemma ray_points_reverse: "ray_points p (reverse pts) = ray_points p pts"
proof -
  have s: "set (reverse pts) = set pts"
    by (cases pts) auto
  have f: "(\<Sum>e\<leftarrow>rev (map prod.swap (clist_edges pts)). fst (cross_delta p (fst e) (snd e)))
           = (\<Sum>e\<leftarrow>clist_edges pts. fst (cross_delta p (fst e) (snd e)))"
    by (simp add: rev_map [symmetric] sum_list_rev comp_def cross_delta_swap [of p])
  have g: "(\<Sum>e\<leftarrow>rev (map prod.swap (clist_edges pts)). snd (cross_delta p (fst e) (snd e)))
           = (\<Sum>e\<leftarrow>clist_edges pts. snd (cross_delta p (fst e) (snd e)))"
    by (simp add: rev_map [symmetric] sum_list_rev comp_def cross_delta_swap [of p])
  show ?thesis
    unfolding ray_points_def clist_edges_reverse s f g ..
qed

lemma rev_rotate1_reverse: "rev xs = rotate1 (reverse xs)"
  by (cases xs) simp_all

lemma ray_points_rev: "ray_points p (rev pts) = ray_points p pts"
  by (simp only: rev_rotate1_reverse ray_points_rotate1 ray_points_reverse)

lemma convert_fold:
  assumes "foldl (\<lambda>(vs, h') p. (insertHead (length h') vs, h' @ [new_Vertex e (length h') p]))
             (vs, h) pts = (vs', h')"
    and "\<forall>i\<in>set vs. i < length h"
  shows "map (vpt h') vs' = rev pts @ map (vpt h) vs"
  using assms
proof (induction pts arbitrary: vs h)
  case Nil
  then show ?case by simp
next
  case (Cons p ps)
  let ?h = "h @ [new_Vertex e (length h) p]"
  from Cons.prems(1)
  have f: "foldl (\<lambda>(vs, h') p. (insertHead (length h') vs, h' @ [new_Vertex e (length h') p]))
             (length h # vs, ?h) ps = (vs', h')"
    by (simp add: insertHead_def)
  have b: "\<forall>i\<in>set (length h # vs). i < length ?h"
    using Cons.prems(2) by auto
  have "map (vpt h') vs' = rev ps @ map (vpt ?h) (length h # vs)"
    using f b by (rule Cons.IH)
  moreover have "map (vpt ?h) vs = map (vpt h) vs"
    using Cons.prems(2) by (simp add: vpt_def nth_append)
  moreover have "vpt ?h (length h) = p"
    by (simp add: vpt_def new_Vertex_def)
  ultimately show ?case by simp
qed

lemma kAvoidPath_contains_points:
  "kAvoidPath_contains e g start raw =
     (ray_points start
        (if length (rpoints raw) = 19 \<and> gameId g = ''lsl1sci'' \<and> currentRoomNumber g = 350
            \<and> rpoints raw ! 18 = Point 108 137
         then take 17 (rpoints raw) else rpoints raw) \<noteq> CONT_OUTSIDE)"
proof (cases "rpoints raw = []")
  case True
  then show ?thesis
    by (simp add: kAvoidPath_contains_def convert_polygon_def ray_points_def clist_edges_def)
next
  case False
  define size where "size = (if length (rpoints raw) = 19 \<and> gameId g = ''lsl1sci''
                       \<and> currentRoomNumber g = 350 \<and> rpoints raw ! 18 = Point 108 137
                    then 17 else length (rpoints raw))"
  define pts where "pts = take size (rpoints raw)"
  obtain vs h' where f: "foldl (\<lambda>(vs, h') p. (insertHead (length h') vs, h' @ [new_Vertex e (length h') p]))
             ([], []) pts = (vs, h')"
    by (cases "foldl (\<lambda>(vs, h') p. (insertHead (length h') vs, h' @ [new_Vertex e (length h') p]))
             ([], []) pts") 
  have m: "map (vpt h') vs = rev pts @ map (vpt []) []"
    using f by (rule convert_fold) simp
  have c: "convert_polygon e g [] raw = (Some (fix_vertex_order h' \<lparr>ptype = rtype raw, vertices = vs\<rparr>), h')"
    using False f by (simp add: convert_polygon_def Let_def size_def pts_def)
  have "kAvoidPath_contains e g start raw = (ray_class h' start vs \<noteq> CONT_OUTSIDE)"
    by (simp add: kAvoidPath_contains_def c contained_hit_test)
  also have "ray_class h' start vs = ray_points start pts"
    using m by (simp add: ray_class_points ray_points_rev)
  also have "pts = (if length (rpoints raw) = 19 \<and> gameId g = ''lsl1sci'' \<and> currentRoomNumber g = 350
            \<and> rpoints raw ! 18 = Point 108 137
         then take 17 (rpoints raw) else rpoints raw)"
    by (simp add: pts_def size_def)
  finally show ?thesis .
qed

text \<open>
  Claim C9. The call with three arguments overrides the type of the converted polygon, so
  for every polygon of the script, whatever its declared type, the call answers true exactly
  when the un-inverted ray-crossing classification of the query point against the outline
  that the script lists (the first 17 points of it for the broken polygon of room 350 of
  lsl1sci) is Inside or OnEdge. The declared type has no influence at all on the answer: the
  classification depends neither on the order in which the conversion stores the points nor
  on the winding order that it chooses from the type. A polygon without points gives false.
\<close>

theorem kAvoidPath_contains_uninverted:
  "kAvoidPath_contains e g start raw =
     (ray_points start
        (if length (rpoints raw) = 19 \<and> gameId g = ''lsl1sci'' \<and> currentRoomNumber g = 350
            \<and> rpoints raw ! 18 = Point 108 137
         then take 17 (rpoints raw) else rpoints raw) = CONT_INSIDE
      \<or> ray_points start
        (if length (rpoints raw) = 19 \<and> gameId g = ''lsl1sci'' \<and> currentRoomNumber g = 350
            \<and> rpoints raw ! 18 = Point 108 137
         then take 17 (rpoints raw) else rpoints raw) = CONT_ON_EDGE)
   \<and> kAvoidPath_contains e g start (raw\<lparr>rtype := t\<rparr>) = kAvoidPath_contains e g start raw
   \<and> \<not> kAvoidPath_contains e g start (raw\<lparr>rpoints := []\<rparr>)"
proof (intro conjI)
  let ?c = "ray_points start
        (if length (rpoints raw) = 19 \<and> gameId g = ''lsl1sci'' \<and> currentRoomNumber g = 350
            \<and> rpoints raw ! 18 = Point 108 137
         then take 17 (rpoints raw) else rpoints raw)"
  have "(?c \<noteq> CONT_OUTSIDE) = (?c = CONT_INSIDE \<or> ?c = CONT_ON_EDGE)"
    by (cases ?c) simp_all
  then show "kAvoidPath_contains e g start raw = (?c = CONT_INSIDE \<or> ?c = CONT_ON_EDGE)"
    by (simp only: kAvoidPath_contains_points)
  show "kAvoidPath_contains e g start (raw\<lparr>rtype := t\<rparr>) = kAvoidPath_contains e g start raw"
    by (rule kAvoidPath_contains_type)
  show "\<not> kAvoidPath_contains e g start (raw\<lparr>rpoints := []\<rparr>)"
    by (simp add: kAvoidPath_contains_def convert_polygon_def)
qed

theorem kAvoidPath_contains_uninverted_witness:
  "kAvoidPath_contains ex_env ex_game (Point 15 15) (sq_raw POLY_CONTAINED_ACCESS)
   \<and> ray_points (Point 15 15) (rpoints (sq_raw POLY_CONTAINED_ACCESS)) = CONT_INSIDE
   \<and> kAvoidPath_contains ex_env ex_game (Point 10 15) (sq_raw POLY_CONTAINED_ACCESS)
   \<and> ray_points (Point 10 15) (rpoints (sq_raw POLY_CONTAINED_ACCESS)) = CONT_ON_EDGE
   \<and> \<not> kAvoidPath_contains ex_env ex_game (Point 30 15) (sq_raw POLY_CONTAINED_ACCESS)
   \<and> ray_points (Point 30 15) (rpoints (sq_raw POLY_CONTAINED_ACCESS)) = CONT_OUTSIDE
   \<and> kAvoidPath_contains ex_env ex_game (Point 15 15) (sq_raw POLY_BARRED_ACCESS)"
proof -
  let ?raw = "sq_raw POLY_CONTAINED_ACCESS"
  have i: "(if length (rpoints ?raw) = 19 \<and> gameId ex_game = ''lsl1sci''
              \<and> currentRoomNumber ex_game = 350 \<and> rpoints ?raw ! 18 = Point 108 137
            then take 17 (rpoints ?raw) else rpoints ?raw) = rpoints ?raw"
    by (simp add: sq_raw_def)
  note T1 = kAvoidPath_contains_uninverted
    [of ex_env ex_game "Point 15 15" ?raw POLY_BARRED_ACCESS, unfolded i]
  note T2 = kAvoidPath_contains_uninverted
    [of ex_env ex_game "Point 10 15" ?raw POLY_BARRED_ACCESS, unfolded i]
  note T3 = kAvoidPath_contains_uninverted
    [of ex_env ex_game "Point 30 15" ?raw POLY_BARRED_ACCESS, unfolded i]
  have a: "ray_points (Point 15 15) (rpoints ?raw) = CONT_INSIDE"
    by code_simp
  have b: "ray_points (Point 10 15) (rpoints ?raw) = CONT_ON_EDGE"
    by code_simp
  have c: "ray_points (Point 30 15) (rpoints ?raw) = CONT_OUTSIDE"
    by code_simp
  have a': "kAvoidPath_contains ex_env ex_game (Point 15 15) ?raw"
    using T1 [THEN conjunct1] a by simp
  have b': "kAvoidPath_contains ex_env ex_game (Point 10 15) ?raw"
    using T2 [THEN conjunct1] b by simp
  have c': "\<not> kAvoidPath_contains ex_env ex_game (Point 30 15) ?raw"
    using T3 [THEN conjunct1] c by simp
  have r: "?raw\<lparr>rtype := POLY_BARRED_ACCESS\<rparr> = sq_raw POLY_BARRED_ACCESS"
    by (simp add: sq_raw_def)
  have d: "kAvoidPath_contains ex_env ex_game (Point 15 15) (sq_raw POLY_BARRED_ACCESS)"
    using T1 [THEN conjunct2, THEN conjunct1] a' by (simp only: r)
  from a' a b' b c' c d show ?thesis by (intro conjI)
qed

subsection \<open>Free points\<close>

lemma int16_id: "- 32768 \<le> n \<Longrightarrow> n \<le> 32767 \<Longrightarrow> int16 n = n"
  by (simp add: int16_def)

lemma int16_succ: "int16 (int16 n + 1) = int16 (n + 1)"
  unfolding int16_def by (simp add: mod_simps algebra_simps)

lemma int16_succ_pred: "int16 (int16 (n + 1) - 1) = int16 n"
  unfolding int16_def by (simp add: mod_simps algebra_simps)

lemma floor_half_bounds: "\<lfloor>x\<rfloor> \<le> \<lfloor>x + 1 / 2\<rfloor> \<and> \<lfloor>x + 1 / 2\<rfloor> \<le> \<lfloor>x\<rfloor> + 1" for x :: real
proof
  show "\<lfloor>x\<rfloor> \<le> \<lfloor>x + 1 / 2\<rfloor>"
    by (rule floor_mono) simp
  have "\<lfloor>x + 1 / 2\<rfloor> \<le> \<lfloor>x + 1\<rfloor>"
    by (rule floor_mono) simp
  then show "\<lfloor>x + 1 / 2\<rfloor> \<le> \<lfloor>x\<rfloor> + 1"
    by simp
qed

lemma find_free_point_cascade:
  "find_free_point h f polygon =
     (if contained h (Point (int16 \<lfloor>fx f + 1 / 2\<rfloor>) (int16 \<lfloor>fy f + 1 / 2\<rfloor>)) polygon \<noteq> CONT_INSIDE
        then PF_OK (Point (int16 \<lfloor>fx f + 1 / 2\<rfloor>) (int16 \<lfloor>fy f + 1 / 2\<rfloor>))
      else if contained h (Point (int16 \<lfloor>fx f\<rfloor>) (int16 \<lfloor>fy f\<rfloor>)) polygon \<noteq> CONT_INSIDE
        then PF_OK (Point (int16 \<lfloor>fx f\<rfloor>) (int16 \<lfloor>fy f\<rfloor>))
      else if contained h (Point (int16 (\<lfloor>fx f\<rfloor> + 1)) (int16 \<lfloor>fy f\<rfloor>)) polygon \<noteq> CONT_INSIDE
        then PF_OK (Point (int16 (\<lfloor>fx f\<rfloor> + 1)) (int16 \<lfloor>fy f\<rfloor>))
      else if contained h (Point (int16 (\<lfloor>fx f\<rfloor> + 1)) (int16 (\<lfloor>fy f\<rfloor> + 1))) polygon \<noteq> CONT_INSIDE
        then PF_OK (Point (int16 (\<lfloor>fx f\<rfloor> + 1)) (int16 (\<lfloor>fy f\<rfloor> + 1)))
      else if contained h (Point (int16 \<lfloor>fx f\<rfloor>) (int16 (\<lfloor>fy f\<rfloor> + 1))) polygon \<noteq> CONT_INSIDE
        then PF_OK (Point (int16 \<lfloor>fx f\<rfloor>) (int16 (\<lfloor>fy f\<rfloor> + 1)))
      else PF_FATAL)"
  by (simp add: find_free_point_def Let_def int16_succ int16_succ_pred)

text \<open>
  Claim C5, as amended. \<open>find_free_point\<close> tries the rounded point first; when that is Inside it
  probes the lattice points (floor x, floor y), (floor x + 1, floor y),
  (floor x + 1, floor y + 1) and (floor x, floor y + 1) in this order, each coordinate as
  it is stored in the 16 bit coordinates of a \<open>Common::Point\<close>, and returns the first
  that is not Inside. It returns \<open>PF_FATAL\<close> exactly when the rounded point and the
  four stored lattice points are all Inside, never \<open>PF_ERROR\<close>, and a point it returns
  with \<open>PF_OK\<close> is not Inside the polygon. When floor x, floor x + 1, floor y and
  floor y + 1 lie between -32768 and 32767, the probes are the rounded point and the four
  lattice points themselves.
\<close>

theorem find_free_point_probes:
  "find_free_point h f polygon =
     (if contained h (Point (int16 \<lfloor>fx f + 1 / 2\<rfloor>) (int16 \<lfloor>fy f + 1 / 2\<rfloor>)) polygon \<noteq> CONT_INSIDE
        then PF_OK (Point (int16 \<lfloor>fx f + 1 / 2\<rfloor>) (int16 \<lfloor>fy f + 1 / 2\<rfloor>))
      else if contained h (Point (int16 \<lfloor>fx f\<rfloor>) (int16 \<lfloor>fy f\<rfloor>)) polygon \<noteq> CONT_INSIDE
        then PF_OK (Point (int16 \<lfloor>fx f\<rfloor>) (int16 \<lfloor>fy f\<rfloor>))
      else if contained h (Point (int16 (\<lfloor>fx f\<rfloor> + 1)) (int16 \<lfloor>fy f\<rfloor>)) polygon \<noteq> CONT_INSIDE
        then PF_OK (Point (int16 (\<lfloor>fx f\<rfloor> + 1)) (int16 \<lfloor>fy f\<rfloor>))
      else if contained h (Point (int16 (\<lfloor>fx f\<rfloor> + 1)) (int16 (\<lfloor>fy f\<rfloor> + 1))) polygon \<noteq> CONT_INSIDE
        then PF_OK (Point (int16 (\<lfloor>fx f\<rfloor> + 1)) (int16 (\<lfloor>fy f\<rfloor> + 1)))
      else if contained h (Point (int16 \<lfloor>fx f\<rfloor>) (int16 (\<lfloor>fy f\<rfloor> + 1))) polygon \<noteq> CONT_INSIDE
        then PF_OK (Point (int16 \<lfloor>fx f\<rfloor>) (int16 (\<lfloor>fy f\<rfloor> + 1)))
      else PF_FATAL)
   \<and> (find_free_point h f polygon = PF_FATAL \<longleftrightarrow>
        contained h (Point (int16 \<lfloor>fx f + 1 / 2\<rfloor>) (int16 \<lfloor>fy f + 1 / 2\<rfloor>)) polygon = CONT_INSIDE
        \<and> contained h (Point (int16 \<lfloor>fx f\<rfloor>) (int16 \<lfloor>fy f\<rfloor>)) polygon = CONT_INSIDE
        \<and> contained h (Point (int16 (\<lfloor>fx f\<rfloor> + 1)) (int16 \<lfloor>fy f\<rfloor>)) polygon = CONT_INSIDE
        \<and> contained h (Point (int16 (\<lfloor>fx f\<rfloor> + 1)) (int16 (\<lfloor>fy f\<rfloor> + 1))) polygon = CONT_INSIDE
        \<and> contained h (Point (int16 \<lfloor>fx f\<rfloor>) (int16 (\<lfloor>fy f\<rfloor> + 1))) polygon = CONT_INSIDE)
   \<and> find_free_point h f polygon \<noteq> PF_ERROR
   \<and> (\<forall>ret. find_free_point h f polygon = PF_OK ret \<longrightarrow> contained h ret polygon \<noteq> CONT_INSIDE)
   \<and> (- 32768 \<le> \<lfloor>fx f\<rfloor> \<and> \<lfloor>fx f\<rfloor> + 1 \<le> 32767 \<and> - 32768 \<le> \<lfloor>fy f\<rfloor> \<and> \<lfloor>fy f\<rfloor> + 1 \<le> 32767 \<longrightarrow>
        find_free_point h f polygon =
          (if contained h (Point \<lfloor>fx f + 1 / 2\<rfloor> \<lfloor>fy f + 1 / 2\<rfloor>) polygon \<noteq> CONT_INSIDE
             then PF_OK (Point \<lfloor>fx f + 1 / 2\<rfloor> \<lfloor>fy f + 1 / 2\<rfloor>)
           else if contained h (Point \<lfloor>fx f\<rfloor> \<lfloor>fy f\<rfloor>) polygon \<noteq> CONT_INSIDE
             then PF_OK (Point \<lfloor>fx f\<rfloor> \<lfloor>fy f\<rfloor>)
           else if contained h (Point (\<lfloor>fx f\<rfloor> + 1) \<lfloor>fy f\<rfloor>) polygon \<noteq> CONT_INSIDE
             then PF_OK (Point (\<lfloor>fx f\<rfloor> + 1) \<lfloor>fy f\<rfloor>)
           else if contained h (Point (\<lfloor>fx f\<rfloor> + 1) (\<lfloor>fy f\<rfloor> + 1)) polygon \<noteq> CONT_INSIDE
             then PF_OK (Point (\<lfloor>fx f\<rfloor> + 1) (\<lfloor>fy f\<rfloor> + 1))
           else if contained h (Point \<lfloor>fx f\<rfloor> (\<lfloor>fy f\<rfloor> + 1)) polygon \<noteq> CONT_INSIDE
             then PF_OK (Point \<lfloor>fx f\<rfloor> (\<lfloor>fy f\<rfloor> + 1))
           else PF_FATAL)
        \<and> (find_free_point h f polygon = PF_FATAL \<longleftrightarrow>
             contained h (Point \<lfloor>fx f + 1 / 2\<rfloor> \<lfloor>fy f + 1 / 2\<rfloor>) polygon = CONT_INSIDE
             \<and> contained h (Point \<lfloor>fx f\<rfloor> \<lfloor>fy f\<rfloor>) polygon = CONT_INSIDE
             \<and> contained h (Point (\<lfloor>fx f\<rfloor> + 1) \<lfloor>fy f\<rfloor>) polygon = CONT_INSIDE
             \<and> contained h (Point (\<lfloor>fx f\<rfloor> + 1) (\<lfloor>fy f\<rfloor> + 1)) polygon = CONT_INSIDE
             \<and> contained h (Point \<lfloor>fx f\<rfloor> (\<lfloor>fy f\<rfloor> + 1)) polygon = CONT_INSIDE))"
proof (intro conjI impI)
  note c = find_free_point_cascade [of h f polygon]
  show "find_free_point h f polygon =
     (if contained h (Point (int16 \<lfloor>fx f + 1 / 2\<rfloor>) (int16 \<lfloor>fy f + 1 / 2\<rfloor>)) polygon \<noteq> CONT_INSIDE
        then PF_OK (Point (int16 \<lfloor>fx f + 1 / 2\<rfloor>) (int16 \<lfloor>fy f + 1 / 2\<rfloor>))
      else if contained h (Point (int16 \<lfloor>fx f\<rfloor>) (int16 \<lfloor>fy f\<rfloor>)) polygon \<noteq> CONT_INSIDE
        then PF_OK (Point (int16 \<lfloor>fx f\<rfloor>) (int16 \<lfloor>fy f\<rfloor>))
      else if contained h (Point (int16 (\<lfloor>fx f\<rfloor> + 1)) (int16 \<lfloor>fy f\<rfloor>)) polygon \<noteq> CONT_INSIDE
        then PF_OK (Point (int16 (\<lfloor>fx f\<rfloor> + 1)) (int16 \<lfloor>fy f\<rfloor>))
      else if contained h (Point (int16 (\<lfloor>fx f\<rfloor> + 1)) (int16 (\<lfloor>fy f\<rfloor> + 1))) polygon \<noteq> CONT_INSIDE
        then PF_OK (Point (int16 (\<lfloor>fx f\<rfloor> + 1)) (int16 (\<lfloor>fy f\<rfloor> + 1)))
      else if contained h (Point (int16 \<lfloor>fx f\<rfloor>) (int16 (\<lfloor>fy f\<rfloor> + 1))) polygon \<noteq> CONT_INSIDE
        then PF_OK (Point (int16 \<lfloor>fx f\<rfloor>) (int16 (\<lfloor>fy f\<rfloor> + 1)))
      else PF_FATAL)"
    by (rule c)
  show "find_free_point h f polygon = PF_FATAL \<longleftrightarrow>
        contained h (Point (int16 \<lfloor>fx f + 1 / 2\<rfloor>) (int16 \<lfloor>fy f + 1 / 2\<rfloor>)) polygon = CONT_INSIDE
        \<and> contained h (Point (int16 \<lfloor>fx f\<rfloor>) (int16 \<lfloor>fy f\<rfloor>)) polygon = CONT_INSIDE
        \<and> contained h (Point (int16 (\<lfloor>fx f\<rfloor> + 1)) (int16 \<lfloor>fy f\<rfloor>)) polygon = CONT_INSIDE
        \<and> contained h (Point (int16 (\<lfloor>fx f\<rfloor> + 1)) (int16 (\<lfloor>fy f\<rfloor> + 1))) polygon = CONT_INSIDE
        \<and> contained h (Point (int16 \<lfloor>fx f\<rfloor>) (int16 (\<lfloor>fy f\<rfloor> + 1))) polygon = CONT_INSIDE"
    by (simp add: c)
  show "find_free_point h f polygon \<noteq> PF_ERROR"
    by (simp add: c)
  show "\<forall>ret. find_free_point h f polygon = PF_OK ret \<longrightarrow> contained h ret polygon \<noteq> CONT_INSIDE"
    by (simp add: c)
next
  assume r: "- 32768 \<le> \<lfloor>fx f\<rfloor> \<and> \<lfloor>fx f\<rfloor> + 1 \<le> 32767 \<and> - 32768 \<le> \<lfloor>fy f\<rfloor> \<and> \<lfloor>fy f\<rfloor> + 1 \<le> 32767"
  from r have r1: "- 32768 \<le> \<lfloor>fx f\<rfloor>" and r2: "\<lfloor>fx f\<rfloor> + 1 \<le> 32767"
    and r3: "- 32768 \<le> \<lfloor>fy f\<rfloor>" and r4: "\<lfloor>fy f\<rfloor> + 1 \<le> 32767"
    by blast+
  note bx = floor_half_bounds [of "fx f"] and bh = floor_half_bounds [of "fy f"]
  have x: "int16 \<lfloor>fx f\<rfloor> = \<lfloor>fx f\<rfloor>" "int16 (\<lfloor>fx f\<rfloor> + 1) = \<lfloor>fx f\<rfloor> + 1"
    using r1 r2 by (intro int16_id; linarith)+
  have y: "int16 \<lfloor>fy f\<rfloor> = \<lfloor>fy f\<rfloor>" "int16 (\<lfloor>fy f\<rfloor> + 1) = \<lfloor>fy f\<rfloor> + 1"
    using r3 r4 by (intro int16_id; linarith)+
  have x0: "int16 \<lfloor>fx f + 1 / 2\<rfloor> = \<lfloor>fx f + 1 / 2\<rfloor>"
    using r1 r2 bx by (intro int16_id; linarith)
  have y0: "int16 \<lfloor>fy f + 1 / 2\<rfloor> = \<lfloor>fy f + 1 / 2\<rfloor>"
    using r3 r4 bh by (intro int16_id; linarith)
  note c = find_free_point_cascade [of h f polygon, unfolded x y x0 y0]
  show "find_free_point h f polygon =
          (if contained h (Point \<lfloor>fx f + 1 / 2\<rfloor> \<lfloor>fy f + 1 / 2\<rfloor>) polygon \<noteq> CONT_INSIDE
             then PF_OK (Point \<lfloor>fx f + 1 / 2\<rfloor> \<lfloor>fy f + 1 / 2\<rfloor>)
           else if contained h (Point \<lfloor>fx f\<rfloor> \<lfloor>fy f\<rfloor>) polygon \<noteq> CONT_INSIDE
             then PF_OK (Point \<lfloor>fx f\<rfloor> \<lfloor>fy f\<rfloor>)
           else if contained h (Point (\<lfloor>fx f\<rfloor> + 1) \<lfloor>fy f\<rfloor>) polygon \<noteq> CONT_INSIDE
             then PF_OK (Point (\<lfloor>fx f\<rfloor> + 1) \<lfloor>fy f\<rfloor>)
           else if contained h (Point (\<lfloor>fx f\<rfloor> + 1) (\<lfloor>fy f\<rfloor> + 1)) polygon \<noteq> CONT_INSIDE
             then PF_OK (Point (\<lfloor>fx f\<rfloor> + 1) (\<lfloor>fy f\<rfloor> + 1))
           else if contained h (Point \<lfloor>fx f\<rfloor> (\<lfloor>fy f\<rfloor> + 1)) polygon \<noteq> CONT_INSIDE
             then PF_OK (Point \<lfloor>fx f\<rfloor> (\<lfloor>fy f\<rfloor> + 1))
           else PF_FATAL)"
    by (rule c)
  show "find_free_point h f polygon = PF_FATAL \<longleftrightarrow>
             contained h (Point \<lfloor>fx f + 1 / 2\<rfloor> \<lfloor>fy f + 1 / 2\<rfloor>) polygon = CONT_INSIDE
             \<and> contained h (Point \<lfloor>fx f\<rfloor> \<lfloor>fy f\<rfloor>) polygon = CONT_INSIDE
             \<and> contained h (Point (\<lfloor>fx f\<rfloor> + 1) \<lfloor>fy f\<rfloor>) polygon = CONT_INSIDE
             \<and> contained h (Point (\<lfloor>fx f\<rfloor> + 1) (\<lfloor>fy f\<rfloor> + 1)) polygon = CONT_INSIDE
             \<and> contained h (Point \<lfloor>fx f\<rfloor> (\<lfloor>fy f\<rfloor> + 1)) polygon = CONT_INSIDE"
    by (simp add: c)
qed

theorem find_free_point_probes_witness:
  "find_free_point sq_heap \<lparr>fx = 21 / 2, fy = 21 / 2\<rparr> (sq_poly POLY_BARRED_ACCESS) = PF_OK (Point 10 10)
   \<and> contained sq_heap (Point 10 10) (sq_poly POLY_BARRED_ACCESS) \<noteq> CONT_INSIDE
   \<and> find_free_point sq_heap \<lparr>fx = 29 / 2, fy = 31 / 2\<rparr> (sq_poly POLY_BARRED_ACCESS) = PF_FATAL
   \<and> contained sq_heap (Point 15 16) (sq_poly POLY_BARRED_ACCESS) = CONT_INSIDE
   \<and> contained sq_heap (Point 14 16) (sq_poly POLY_BARRED_ACCESS) = CONT_INSIDE"
proof -
  note T1 = find_free_point_probes [of sq_heap "\<lparr>fx = 21 / 2, fy = 21 / 2\<rparr>" "sq_poly POLY_BARRED_ACCESS"]
  note T2 = find_free_point_probes [of sq_heap "\<lparr>fx = 29 / 2, fy = 31 / 2\<rparr>" "sq_poly POLY_BARRED_ACCESS"]
  have a: "find_free_point sq_heap \<lparr>fx = 21 / 2, fy = 21 / 2\<rparr> (sq_poly POLY_BARRED_ACCESS) = PF_OK (Point 10 10)"
    by code_simp
  have b: "find_free_point sq_heap \<lparr>fx = 29 / 2, fy = 31 / 2\<rparr> (sq_poly POLY_BARRED_ACCESS) = PF_FATAL"
    by code_simp
  have a': "contained sq_heap (Point 10 10) (sq_poly POLY_BARRED_ACCESS) \<noteq> CONT_INSIDE"
    using T1 [THEN conjunct2, THEN conjunct2, THEN conjunct2, THEN conjunct1, rule_format, OF a] .
  have r: "- 32768 \<le> \<lfloor>fx \<lparr>fx = 29 / 2, fy = 31 / 2\<rparr>\<rfloor> \<and> \<lfloor>fx \<lparr>fx = 29 / 2, fy = 31 / 2\<rparr>\<rfloor> + 1 \<le> 32767
           \<and> - 32768 \<le> \<lfloor>fy \<lparr>fx = 29 / 2, fy = 31 / 2\<rparr>\<rfloor> \<and> \<lfloor>fy \<lparr>fx = 29 / 2, fy = 31 / 2\<rparr>\<rfloor> + 1 \<le> 32767"
    by simp
  note T3 = T2 [THEN conjunct2, THEN conjunct2, THEN conjunct2, THEN conjunct2, rule_format, OF r,
                THEN conjunct2, THEN iffD1, OF b]
  have "contained sq_heap (Point \<lfloor>fx \<lparr>fx = 29 / 2, fy = 31 / 2\<rparr> + 1 / 2\<rfloor>
          \<lfloor>fy \<lparr>fx = 29 / 2, fy = 31 / 2\<rparr> + 1 / 2\<rfloor>) (sq_poly POLY_BARRED_ACCESS) = CONT_INSIDE"
    using T3 by (rule conjunct1)
  then have b': "contained sq_heap (Point 15 16) (sq_poly POLY_BARRED_ACCESS) = CONT_INSIDE"
    by simp
  have "contained sq_heap (Point \<lfloor>fx \<lparr>fx = 29 / 2, fy = 31 / 2\<rparr>\<rfloor>
          (\<lfloor>fy \<lparr>fx = 29 / 2, fy = 31 / 2\<rparr>\<rfloor> + 1)) (sq_poly POLY_BARRED_ACCESS) = CONT_INSIDE"
    using T3 [THEN conjunct2, THEN conjunct2, THEN conjunct2, THEN conjunct2] .
  then have b'': "contained sq_heap (Point 14 16) (sq_poly POLY_BARRED_ACCESS) = CONT_INSIDE"
    by simp
  from a a' b b' b'' show ?thesis by (intro conjI)
qed

text \<open>
  The claim as stated fails at the right end of the 16 bit range, where the probes differ
  from the lattice points. The
  polygon \<open>wrap_poly\<close> is of type ContainedAccess, the point \<open>(32767, 3)\<close> lies outside
  its outline and so do the lattice points \<open>(32768, 3)\<close>, \<open>(32768, 4)\<close> and
  \<open>(32767, 4)\<close>: the rounded point and the four lattice points are all Inside. The
  increment of the coordinate \<open>x\<close> of the probe wraps to \<open>-32768\<close>, a point on the left
  side of the outline, which is returned.
\<close>

theorem find_free_point_counterexample:
  "find_free_point wrap_heap \<lparr>fx = 32767, fy = 3\<rparr> wrap_poly = PF_OK (Point (- 32768) 3)
   \<and> \<lfloor>fx \<lparr>fx = 32767, fy = 3\<rparr>\<rfloor> + 1 = 32768
   \<and> contained wrap_heap (Point 32767 3) wrap_poly = CONT_INSIDE
   \<and> contained wrap_heap (Point 32768 3) wrap_poly = CONT_INSIDE
   \<and> contained wrap_heap (Point 32768 4) wrap_poly = CONT_INSIDE
   \<and> contained wrap_heap (Point 32767 4) wrap_poly = CONT_INSIDE"
  by code_simp

subsection \<open>The output of an unreachable end\<close>

text \<open>
  Claim C4. When the end vertex has no predecessor after the search, \<open>output_path\<close>
  returns exactly three entries: the prepend point if there is one and the point of the
  start vertex otherwise, then the point of the start vertex, then the sentinel.
\<close>

theorem output_path_unreachable:
  assumes "path_prev (heap p ! vertex_end p) = None"
  shows "output_path p =
     Some [case prependPoint p of Some q \<Rightarrow> q | None \<Rightarrow> vpt (heap p) (vertex_start p),
           vpt (heap p) (vertex_start p),
           Point POLY_LAST_POINT POLY_LAST_POINT]"
  using assms by (simp add: output_path_def)

theorem output_path_unreachable_witness:
  "path_prev (heap sq_state ! vertex_end sq_state) = None
   \<and> output_path sq_state = Some [Point 10 10, Point 10 10, Point 0x7777 0x7777]
   \<and> output_path (sq_state\<lparr>prependPoint := Some (Point 15 15)\<rparr>)
       = Some [Point 15 15, Point 10 10, Point 0x7777 0x7777]"
proof -
  have h: "path_prev (heap sq_state ! vertex_end sq_state) = None"
    by (simp add: sq_state_def sq_heap_def)
  have h': "path_prev (heap (sq_state\<lparr>prependPoint := Some (Point 15 15)\<rparr>)
                ! vertex_end (sq_state\<lparr>prependPoint := Some (Point 15 15)\<rparr>)) = None"
    by (simp add: sq_state_def sq_heap_def)
  from output_path_unreachable [OF h] output_path_unreachable [OF h'] h
  show ?thesis by (simp add: sq_state_def sq_heap_def vpt_def)
qed

subsection \<open>Visibility is symmetric\<close>

lemma area_swap: "area b a c = - area a b c"
  by (simp add: area_def algebra_simps)

lemma collinear_swap: "collinear b a c = collinear a b c"
  by (simp add: collinear_def area_swap [of a b c])

lemma between_swap: "between b a c = between a b c"
  unfolding between_def collinear_swap [of a b c] by auto

lemma intersect_proper_swap: "intersect_proper b a c d = intersect_proper a b c d"
  unfolding intersect_proper_def Let_def by blast

lemma edge_breaks_swap: "edge_breaks s b a ed = edge_breaks s a b ed"
  unfolding edge_breaks_def
  by (simp only: between_swap [of "vpt (heap s) a" "vpt (heap s) b"]
        intersect_proper_swap [of "vpt (heap s) a" "vpt (heap s) b"] disj_commute)

lemma edge_scan_all:
  "edge_scan s a b es = (\<forall>ed \<in> set es. \<not> edge_breaks s a b ed)"
  by (induction es) simp_all

lemma edge_scan_swap: "edge_scan s b a es = edge_scan s a b es"
  by (simp add: edge_scan_all edge_breaks_swap [of s a b])

lemma visible_loop_set:
  "set (visible_loop s c xs acc) = set acc \<union> {x \<in> set xs. sees s c x}"
  by (induction xs arbitrary: acc) (auto simp: sees_def)

lemma visible_vertices_set:
  "set (visible_vertices s c) = {x \<in> set (vertex_index s). sees s c x}"
  by (simp add: visible_vertices_def visible_loop_set)

lemma sees_swap: "sees s a b = sees s b a"
  unfolding sees_def edge_scan_swap [of s a b] by auto

text \<open>
  Claim C10. The visibility computed by \<open>visible_vertices\<close> is symmetric: for two distinct
  vertices of the vertex index, the first is among the vertices visible from the second
  exactly when the second is among the vertices visible from the first.
\<close>

theorem visible_vertices_symmetric:
  assumes "a \<in> set (vertex_index s)" and "b \<in> set (vertex_index s)" and "a \<noteq> b"
  shows "a \<in> set (visible_vertices s b) \<longleftrightarrow> b \<in> set (visible_vertices s a)"
  using assms by (simp add: visible_vertices_set sees_swap [of s a b])

theorem visible_vertices_symmetric_witness:
  "0 \<in> set (vertex_index sq_state) \<and> 1 \<in> set (vertex_index sq_state) \<and> (0::nat) \<noteq> 1
   \<and> 1 \<in> set (visible_vertices sq_state 0) \<and> 0 \<in> set (visible_vertices sq_state 1)
   \<and> 2 \<in> set (vertex_index sq_state) \<and> (0::nat) \<noteq> 2
   \<and> 2 \<notin> set (visible_vertices sq_state 0) \<and> 0 \<notin> set (visible_vertices sq_state 2)"
proof -
  have i0: "0 \<in> set (vertex_index sq_state)" and i1: "1 \<in> set (vertex_index sq_state)"
    and i2: "2 \<in> set (vertex_index sq_state)"
    by (simp_all add: sq_state_def)
  have n1: "(0::nat) \<noteq> 1" and n2: "(0::nat) \<noteq> 2" by simp_all
  have a: "1 \<in> set (visible_vertices sq_state 0)" by code_simp
  have b: "2 \<notin> set (visible_vertices sq_state 0)" by code_simp
  from a visible_vertices_symmetric [OF i1 i0 n1 [symmetric]]
  have a': "0 \<in> set (visible_vertices sq_state 1)" by (rule rev_iffD1)
  from b visible_vertices_symmetric [OF i2 i0 n2 [symmetric]]
  have b': "0 \<notin> set (visible_vertices sq_state 2)" by simp
  from i0 i1 i2 n1 n2 a a' b b' show ?thesis by (intro conjI)
qed

subsection \<open>Merging a point twice\<close>

lemma heap_closed_iff:
  "heap_closed s \<longleftrightarrow> (\<forall>i \<in> set (concat (map vertices (polygons s))). i < length (heap s))"
  by (auto simp: heap_closed_def list_all_iff)

lemma find_unique:
  "x \<in> set xs \<Longrightarrow> P x \<Longrightarrow> \<forall>y \<in> set xs. P y \<longrightarrow> y = x \<Longrightarrow> find P xs = Some x"
proof (induction xs)
  case Nil
  then show ?case by simp
next
  case (Cons a xs)
  show ?case
  proof (cases "P a")
    case True
    have "a \<in> set (a # xs)" by simp
    with Cons.prems(3) True have "a = x" by blast
    with True show ?thesis by simp
  next
    case False
    with Cons.prems(1,2) have 1: "x \<in> set xs" by auto
    from Cons.prems(3) have 3: "\<forall>y \<in> set xs. P y \<longrightarrow> y = x" by simp
    from Cons.IH [OF 1 Cons.prems(2) 3] False show ?thesis by simp
  qed
qed

lemma set_insertAfter: "set (insertAfter a n vs) = insert n (set vs)"
proof -
  have "set (take k vs @ n # drop k vs) = insert n (set vs)" for k
    using append_take_drop_id [of k vs] by (metis Un_insert_right set_append list.simps(15))
  then show ?thesis by (simp add: insertAfter_def)
qed

lemma split_edge_set:
  "split_edge h p n ps = Some ps' \<Longrightarrow>
     set (concat (map vertices ps')) = insert n (set (concat (map vertices ps)))"
proof (induction ps arbitrary: ps')
  case Nil
  then show ?case by simp
next
  case (Cons polygon ps)
  show ?case
  proof (cases "first_has_edges (vertices polygon)
                \<and> find_edge h p (clist_edges (vertices polygon)) \<noteq> None")
    case True
    then obtain a where a: "find_edge h p (clist_edges (vertices polygon)) = Some a" by auto
    with True Cons.prems
    have "ps' = polygon\<lparr>vertices := insertAfter a n (vertices polygon)\<rparr> # ps" by simp
    then show ?thesis by (simp add: set_insertAfter)
  next
    case False
    with Cons.prems obtain qs where qs: "split_edge h p n ps = Some qs" and ps': "ps' = polygon # qs"
      by (auto split: if_splits option.splits)
    from Cons.IH [OF qs] ps' show ?thesis by auto
  qed
qed

lemma merge_point_found:
  assumes "find (\<lambda>vertex. vpt (heap s) vertex = p) (concat (map vertices (polygons s))) = Some a"
  shows "merge_point e s p = (a, s)"
  using assms by (simp add: merge_point_def)

lemma vpt_append_old: "i < length h \<Longrightarrow> vpt (h @ [x]) i = vpt h i"
  by (simp add: vpt_def nth_append)

lemma vpt_append_new: "vpt (h @ [new_Vertex e a p]) (length h) = p"
  by (simp add: vpt_def new_Vertex_def)

lemma merge_point_again:
  assumes closed: "heap_closed s"
    and none: "find (\<lambda>vertex. vpt (heap s) vertex = p) (concat (map vertices (polygons s))) = None"
    and ids: "set (concat (map vertices ps')) = insert (length (heap s)) (set (concat (map vertices (polygons s))))"
  shows "merge_point e (s\<lparr>heap := heap s @ [new_Vertex e (length (heap s)) p], polygons := ps'\<rparr>) p
         = (length (heap s), s\<lparr>heap := heap s @ [new_Vertex e (length (heap s)) p], polygons := ps'\<rparr>)"
proof -
  let ?h = "heap s @ [new_Vertex e (length (heap s)) p]"
  let ?n = "length (heap s)"
  have old: "vpt ?h i \<noteq> p" if "i \<in> set (concat (map vertices (polygons s)))" for i
  proof -
    from that closed have "i < length (heap s)" unfolding heap_closed_iff by blast
    then have "vpt ?h i = vpt (heap s) i" by (rule vpt_append_old)
    moreover from none that have "vpt (heap s) i \<noteq> p" by (auto simp: find_None_iff)
    ultimately show ?thesis by simp
  qed
  have "find (\<lambda>vertex. vpt ?h vertex = p) (concat (map vertices ps')) = Some ?n"
  proof (rule find_unique)
    show "?n \<in> set (concat (map vertices ps'))" unfolding ids by (rule insertI1)
    show "vpt ?h ?n = p" by (rule vpt_append_new)
    show "\<forall>y \<in> set (concat (map vertices ps')). vpt ?h y = p \<longrightarrow> y = ?n"
      using ids old by blast
  qed
  then show ?thesis by (simp add: merge_point_found)
qed

text \<open>
  Claim C3. \<open>merge_point\<close> is idempotent: on a state whose polygons hold allocated
  vertices only, a second call with the same point, on the state the first call left,
  returns the same vertex and leaves that state (the vertices, the polygon list and every
  cyclic vertex sequence) as it was.
\<close>

theorem merge_point_idempotent:
  assumes "heap_closed s"
  shows "merge_point e (snd (merge_point e s p)) p = merge_point e s p"
proof (cases "find (\<lambda>vertex. vpt (heap s) vertex = p) (concat (map vertices (polygons s)))")
  case (Some a)
  then show ?thesis by (simp add: merge_point_found)
next
  case None
  let ?h = "heap s @ [new_Vertex e (length (heap s)) p]"
  let ?n = "length (heap s)"
  show ?thesis
  proof (cases "split_edge ?h p ?n (polygons s)")
    case (Some ps')
    from None Some have m: "merge_point e s p = (?n, s\<lparr>heap := ?h, polygons := ps'\<rparr>)"
      by (simp add: merge_point_def Let_def)
    from merge_point_again [OF assms None split_edge_set [OF Some]] m
    show ?thesis by simp
  next
    case no_edge: None
    let ?ps = "\<lparr>ptype = POLY_BARRED_ACCESS, vertices = insertHead ?n []\<rparr> # polygons s"
    from None no_edge have m: "merge_point e s p = (?n, s\<lparr>heap := ?h, polygons := ?ps\<rparr>)"
      by (simp add: merge_point_def Let_def)
    have "set (concat (map vertices ?ps)) = insert ?n (set (concat (map vertices (polygons s))))"
      by (simp add: insertHead_def)
    from merge_point_again [OF assms None this] m
    show ?thesis by simp
  qed
qed

theorem merge_point_idempotent_witness:
  "heap_closed sq_state
   \<and> fst (merge_point ex_env sq_state (Point 15 10)) = 4
   \<and> map vertices (polygons (snd (merge_point ex_env sq_state (Point 15 10)))) = [[0, 1, 2, 3, 4]]
   \<and> merge_point ex_env (snd (merge_point ex_env sq_state (Point 15 10))) (Point 15 10)
       = merge_point ex_env sq_state (Point 15 10)"
proof -
  have c: "heap_closed sq_state" by code_simp
  have a: "fst (merge_point ex_env sq_state (Point 15 10)) = 4" by code_simp
  have b: "map vertices (polygons (snd (merge_point ex_env sq_state (Point 15 10)))) = [[0, 1, 2, 3, 4]]"
    by code_simp
  from c a b merge_point_idempotent [OF c, of ex_env "Point 15 10"] show ?thesis by (intro conjI)
qed

subsection \<open>Rules for loops\<close>

text \<open>
  A loop leaves with the result of its body, or goes on; a result it leaves with comes from
  a state that an invariant reaches; a body that hands on its own state never leaves; and a
  loop whose states decrease a measure leaves.
\<close>

lemma loop_until_Inl: "step x = Inl r \<Longrightarrow> loop_until step x = Some r"
  by (subst loop_until.simps) simp

lemma loop_until_Inr: "step x = Inr x' \<Longrightarrow> loop_until step x = loop_until step x'"
  by (subst loop_until.simps) simp

lemma loop_fuel_sound: "loop_fuel n step x = Some r \<Longrightarrow> loop_until step x = Some r"
proof (induction n arbitrary: x)
  case 0
  then show ?case by simp
next
  case (Suc n)
  show ?case
  proof (cases "step x")
    case (Inl r')
    with Suc.prems show ?thesis by (simp add: loop_until_Inl)
  next
    case (Inr x')
    with Suc.prems have "loop_fuel n step x' = Some r" by simp
    from Suc.IH [OF this] Inr show ?thesis by (simp add: loop_until_Inr [of step x x'])
  qed
qed

lemma loop_until_invariant:
  fixes step :: "'a \<Rightarrow> 'b + 'a"
  assumes "loop_until step x = Some r" and "I x"
    and "\<And>a b. I a \<Longrightarrow> step a = Inr b \<Longrightarrow> I b"
  shows "\<exists>a. I a \<and> step a = Inl r"
proof -
  define P where "P = (\<lambda>st a y. st = step \<longrightarrow> I a \<longrightarrow> (\<exists>c. I c \<and> step c = Inl y))"
  have "(case (step, x) of (st, a) \<Rightarrow> P st a) r"
  proof (rule loop_until.raw_induct [where P = P])
    show "(case (step, x) of (st, a) \<Rightarrow> loop_until st a) = Some r"
      using assms(1) by simp
  next
    fix f :: "('a \<Rightarrow> 'b + 'a) \<Rightarrow> 'a \<Rightarrow> 'b option" and st a y
    assume IH: "\<And>st' b z. f st' b = Some z \<Longrightarrow> P st' b z"
      and eq: "(case st a of Inl r \<Rightarrow> Some r | Inr x' \<Rightarrow> f st x') = Some y"
    show "P st a y"
      unfolding P_def
    proof (intro impI)
      assume st: "st = step" and ia: "I a"
      show "\<exists>c. I c \<and> step c = Inl y"
      proof (cases "step a")
        case (Inl r')
        with eq st have "r' = y" by simp
        with Inl ia show ?thesis by blast
      next
        case (Inr b)
        with eq st have "f step b = Some y" by simp
        from IH [OF this] have "I b \<longrightarrow> (\<exists>c. I c \<and> step c = Inl y)" by (simp add: P_def)
        moreover from assms(3) [OF ia Inr] have "I b" .
        ultimately show ?thesis by blast
      qed
    qed
  qed
  with assms(2) show ?thesis by (simp add: P_def)
qed

lemma loop_until_stuck:
  assumes "step x = Inr x"
  shows "loop_until step x = None"
proof (cases "loop_until step x")
  case None
  then show ?thesis .
next
  case (Some r)
  have "\<exists>a. a = x \<and> step a = Inl r"
    by (rule loop_until_invariant [OF Some, where I = "\<lambda>a. a = x"]) (use assms in auto)
  with assms show ?thesis by simp
qed

lemma loop_until_terminates:
  fixes m :: "'a \<Rightarrow> nat"
  assumes "I x"
    and "\<And>a b. I a \<Longrightarrow> step a = Inr b \<Longrightarrow> I b \<and> m b < m a"
  shows "\<exists>r. loop_until step x = Some r"
  using assms(1)
proof (induction "m x" arbitrary: x rule: less_induct)
  case less
  show ?case
  proof (cases "step x")
    case (Inl r)
    then show ?thesis by (auto simp: loop_until_Inl)
  next
    case (Inr b)
    from assms(2) [OF less.prems Inr] have "I b" and "m b < m x" by simp_all
    from less.hyps [OF this(2) this(1)] obtain r where "loop_until step b = Some r" by blast
    with Inr have "loop_until step x = Some r" by (simp add: loop_until_Inr [of step x b])
    then show ?thesis by blast
  qed
qed

subsection \<open>The search ends\<close>

lemma find_min_range:
  "find_min h xs k best m = Some j \<Longrightarrow> best = Some j \<or> (k \<le> j \<and> j < k + length xs)"
proof (induction xs arbitrary: k best m)
  case Nil
  then show ?case by simp
next
  case (Cons a xs)
  show ?case
  proof (cases "costF (h ! a) < m")
    case True
    with Cons.prems have "find_min h xs (k + 1) (Some k) (costF (h ! a)) = Some j" by simp
    from Cons.IH [OF this] show ?thesis by auto
  next
    case False
    with Cons.prems have "find_min h xs (k + 1) best m = Some j" by simp
    from Cons.IH [OF this] show ?thesis by auto
  qed
qed

lemma find_min_bound:
  "find_min h xs 0 None m = Some j \<Longrightarrow> j < length xs"
  using find_min_range [of h xs 0 None m j] by simp

lemma relax_vertex_upper:
  "set (fst (relax_vertex e s av vmin closedSet a oh)) \<subseteq> set (fst oh) \<union> ({a} - set closedSet)"
  by (auto simp: relax_vertex_def Let_def)

lemma relax_vertex_lower:
  "set (fst oh) \<subseteq> set (fst (relax_vertex e s av vmin closedSet a oh))"
  by (auto simp: relax_vertex_def Let_def)

lemma relax_vertex_distinct:
  "distinct (fst oh) \<Longrightarrow> distinct (fst (relax_vertex e s av vmin closedSet a oh))"
  by (auto simp: relax_vertex_def Let_def)

lemma relax_upper:
  "set (fst (relax e s av vmin closedSet vs oh)) \<subseteq> set (fst oh) \<union> (set vs - set closedSet)"
proof (induction vs arbitrary: oh)
  case Nil
  then show ?case by simp
next
  case (Cons a vs)
  have "set (fst (relax e s av vmin closedSet (a # vs) oh))
        \<subseteq> set (fst (relax_vertex e s av vmin closedSet a oh)) \<union> (set vs - set closedSet)"
    using Cons.IH [of "relax_vertex e s av vmin closedSet a oh"] by simp
  also have "\<dots> \<subseteq> (set (fst oh) \<union> ({a} - set closedSet)) \<union> (set vs - set closedSet)"
    using relax_vertex_upper [of e s av vmin closedSet a oh] by (rule Un_mono) simp
  also have "\<dots> \<subseteq> set (fst oh) \<union> (set (a # vs) - set closedSet)" by auto
  finally show ?case .
qed

lemma relax_lower:
  "set (fst oh) \<subseteq> set (fst (relax e s av vmin closedSet vs oh))"
proof (induction vs arbitrary: oh)
  case Nil
  then show ?case by simp
next
  case (Cons a vs)
  have "set (fst oh) \<subseteq> set (fst (relax_vertex e s av vmin closedSet a oh))"
    by (rule relax_vertex_lower)
  also have "\<dots> \<subseteq> set (fst (relax e s av vmin closedSet (a # vs) oh))"
    using Cons.IH [of "relax_vertex e s av vmin closedSet a oh"] by simp
  finally show ?case .
qed

lemma relax_distinct:
  "distinct (fst oh) \<Longrightarrow> distinct (fst (relax e s av vmin closedSet vs oh))"
proof (induction vs arbitrary: oh)
  case Nil
  then show ?case by simp
next
  case (Cons a vs)
  from Cons.prems have "distinct (fst (relax_vertex e s av vmin closedSet a oh))"
    by (rule relax_vertex_distinct)
  from Cons.IH [OF this] show ?case by simp
qed

lemma erase_set:
  assumes "distinct xs" and "k < length xs"
  shows "set (erase k xs) = set xs - {xs ! k}" and "distinct (erase k xs)"
proof -
  have xs: "xs = take k xs @ (xs ! k) # drop (Suc k) xs"
    using assms(2) by (simp add: id_take_nth_drop)
  from assms(1) have d: "distinct (take k xs @ (xs ! k) # drop (Suc k) xs)"
    using xs by simp
  then show "distinct (erase k xs)" by (simp add: erase_def)
  have "set xs = set (take k xs) \<union> {xs ! k} \<union> set (drop (Suc k) xs)"
    by (subst xs) (simp del: )
  moreover from d have "xs ! k \<notin> set (take k xs)" "xs ! k \<notin> set (drop (Suc k) xs)" by auto
  ultimately show "set (erase k xs) = set xs - {xs ! k}" by (auto simp: erase_def)
qed

lemma AStar_step_inv:
  assumes inv: "astar_inv s c" and step: "AStar_step e av c = Inr c'"
  shows "astar_inv s c'
    \<and> (\<exists>vertex_min \<in> set (fst c). fst (snd c') = vertex_min # fst (snd c)
          \<and> vertex_min \<notin> set (fst (snd c)) \<and> vertex_min \<notin> set (fst c'))
    \<and> card (set (vertex_index s) - set (fst (snd c'))) < card (set (vertex_index s) - set (fst (snd c)))"
proof -
  obtain openSet closedSet s' where c: "c = (openSet, closedSet, s')" by (cases c)
  from inv c have s': "s' = s\<lparr>heap := heap s'\<rparr>" and d: "distinct openSet" "distinct closedSet"
    and dj: "set openSet \<inter> set closedSet = {}"
    and sub: "set openSet \<subseteq> set (vertex_index s)" "set closedSet \<subseteq> set (vertex_index s)"
    and ve: "vertex_end s \<notin> set closedSet"
    by (simp_all add: astar_inv_def)
  from step c obtain k where k: "find_min (heap s') openSet 0 None HUGE_DISTANCE = Some k"
    by (auto simp: AStar_step_def split: if_splits option.splits)
  let ?vm = "openSet ! k"
  let ?oh = "relax e s' av ?vm (?vm # closedSet) (visible_vertices s' ?vm) (erase k openSet, heap s')"
  from step c k have c': "c' = (fst ?oh, ?vm # closedSet, s'\<lparr>heap := snd ?oh\<rparr>)"
    and vme': "?vm \<noteq> vertex_end s'"
    by (auto simp: AStar_step_def Let_def split: if_splits)
  from vme' s' have vme: "?vm \<noteq> vertex_end s"
    by (metis PathfindingState.select_convs(4) PathfindingState.surjective PathfindingState.update_convs(1))
  from find_min_bound [OF k] have kl: "k < length openSet" .
  then have vm: "?vm \<in> set openSet" by simp
  with dj have vmc: "?vm \<notin> set closedSet" by auto
  from erase_set [OF d(1) kl] have er: "set (erase k openSet) = set openSet - {?vm}"
    "distinct (erase k openSet)" by simp_all
  have vis: "set (visible_vertices s' ?vm) \<subseteq> set (vertex_index s)"
    using s' by (metis (no_types, lifting) visible_vertices_set mem_Collect_eq subsetI
        PathfindingState.select_convs(5) PathfindingState.surjective PathfindingState.update_convs(1))
  from relax_upper [of e s' av ?vm "?vm # closedSet" "visible_vertices s' ?vm" "(erase k openSet, heap s')"]
    er(1)
  have o1: "set (fst ?oh) \<subseteq> (set openSet - {?vm}) \<union> (set (visible_vertices s' ?vm) - set (?vm # closedSet))"
    by simp
  from er(2) have o3: "distinct (fst ?oh)" by (intro relax_distinct) simp
  from o1 dj have o4: "set (fst ?oh) \<inter> set (?vm # closedSet) = {}" by auto
  from o1 sub vis have o5: "set (fst ?oh) \<subseteq> set (vertex_index s)" by auto
  have h: "s'\<lparr>heap := snd ?oh\<rparr> = s\<lparr>heap := heap (s'\<lparr>heap := snd ?oh\<rparr>)\<rparr>"
    by (subst s') simp
  from vm sub(1) have vmi: "?vm \<in> set (vertex_index s)" by (rule subsetD [rotated])
  have inv': "astar_inv s c'"
    unfolding c' astar_inv_def using o3 o4 o5 d vmc vmi sub h ve vme by simp
  have fin: "finite (set (vertex_index s) - set closedSet)" by simp
  have eq: "set (vertex_index s) - set (?vm # closedSet) = (set (vertex_index s) - set closedSet) - {?vm}"
    by auto
  from vmi vmc have "?vm \<in> set (vertex_index s) - set closedSet" by simp
  from card_Diff1_less [OF fin this]
  have "card (set (vertex_index s) - set (?vm # closedSet)) < card (set (vertex_index s) - set closedSet)"
    by (simp only: eq)
  moreover from o4 have "?vm \<notin> set (fst ?oh)" by auto
  ultimately show ?thesis using inv' vm vmc by (simp add: c c')
qed


lemma AStar_init_inv:
  assumes "vertex_start s \<in> set (vertex_index s)"
  shows "astar_inv s (AStar_init e s)"
  using assms by (simp add: astar_inv_def AStar_init_def)

lemma AStar_step_final:
  "AStar_step e av c = Inl (Inr c') \<Longrightarrow> c' = c"
  by (cases c) (auto simp: AStar_step_def Let_def split: if_splits option.splits)

text \<open>
  Claim C8. \<open>AStar\<close> returns on every pathfinding state whose start and end vertex
  are in the vertex index. The closed set it leaves is duplicate free, disjoint from the
  open set and smaller than the vertex index; since every pass of the loop that does not
  end the search puts one vertex on the closed set, the loop makes at most as many passes
  as there are vertices. (A pass ends the search when the open set is empty, when the end
  vertex is taken, or when \<open>erase\<close> is reached at \<open>end()\<close>.) The invariant
  holds at the start and every pass that goes on keeps it and moves exactly one vertex,
  which was not closed before, from the open set to the closed set.
\<close>

theorem AStar_terminates:
  assumes "vertex_start s \<in> set (vertex_index s)" and "vertex_end s \<in> set (vertex_index s)"
  shows "(\<exists>r. AStar e s av = Some r
           \<and> (case r of
                Inl err \<Rightarrow> True
              | Inr (openSet, closedSet, s') \<Rightarrow>
                  distinct closedSet \<and> set closedSet \<subseteq> set (vertex_index s)
                  \<and> set openSet \<inter> set closedSet = {}
                  \<and> length closedSet < length (vertex_index s)))
         \<and> astar_inv s (AStar_init e s)
         \<and> (\<forall>c c'. astar_inv s c \<and> AStar_step e av c = Inr c' \<longrightarrow>
               astar_inv s c'
               \<and> (\<exists>vertex_min \<in> set (fst c). fst (snd c') = vertex_min # fst (snd c)
                     \<and> vertex_min \<notin> set (fst (snd c)) \<and> vertex_min \<notin> set (fst c')))"
proof -
  let ?m = "\<lambda>c :: nat list \<times> nat list \<times> PathfindingState.
              card (set (vertex_index s) - set (fst (snd c)))"
  have init: "astar_inv s (AStar_init e s)" by (rule AStar_init_inv [OF assms(1)])
  have step: "astar_inv s b \<and> ?m b < ?m a" if "astar_inv s a" and "AStar_step e av a = Inr b" for a b
    using AStar_step_inv [OF that] by simp
  from loop_until_terminates [where I = "astar_inv s" and m = ?m, OF init step]
  obtain r where r: "AStar e s av = Some r" by (auto simp: AStar_def)
  have fin: "distinct closedSet \<and> set closedSet \<subseteq> set (vertex_index s)
             \<and> set openSet \<inter> set closedSet = {} \<and> length closedSet < length (vertex_index s)"
    if "r = Inr (openSet, closedSet, s')" for openSet closedSet s'
  proof -
    from r that have "loop_until (AStar_step e av) (AStar_init e s) = Some (Inr (openSet, closedSet, s'))"
      by (simp add: AStar_def)
    from loop_until_invariant [where I = "astar_inv s", OF this init]
    obtain a where a: "astar_inv s a" "AStar_step e av a = Inl (Inr (openSet, closedSet, s'))"
      using step by blast
    from AStar_step_final [OF a(2)] a(1) have inv: "astar_inv s (openSet, closedSet, s')" by simp
    then have d: "distinct closedSet" and sub: "set closedSet \<subseteq> set (vertex_index s)"
      and dj: "set openSet \<inter> set closedSet = {}" and ve: "vertex_end s \<notin> set closedSet"
      by (simp_all add: astar_inv_def)
    from sub ve assms(2) have "set closedSet \<subset> set (vertex_index s)" by blast
    then have "card (set closedSet) < card (set (vertex_index s))"
      by (intro psubset_card_mono) simp_all
    also have "\<dots> \<le> length (vertex_index s)" by (rule card_length)
    finally have "length closedSet < length (vertex_index s)"
      using d by (simp add: distinct_card)
    with d sub dj show ?thesis by simp
  qed
  have res: "\<exists>r. AStar e s av = Some r
           \<and> (case r of
                Inl err \<Rightarrow> True
              | Inr (openSet, closedSet, s') \<Rightarrow>
                  distinct closedSet \<and> set closedSet \<subseteq> set (vertex_index s)
                  \<and> set openSet \<inter> set closedSet = {}
                  \<and> length closedSet < length (vertex_index s))"
  proof (cases r)
    case (Inl err)
    with r show ?thesis by simp
  next
    case (Inr c)
    obtain openSet closedSet s' where c: "c = (openSet, closedSet, s')" by (cases c)
    from fin [of openSet closedSet s'] Inr c r show ?thesis by simp
  qed
  have each: "\<forall>c c'. astar_inv s c \<and> AStar_step e av c = Inr c' \<longrightarrow>
               astar_inv s c'
               \<and> (\<exists>vertex_min \<in> set (fst c). fst (snd c') = vertex_min # fst (snd c)
                     \<and> vertex_min \<notin> set (fst (snd c)) \<and> vertex_min \<notin> set (fst c'))"
    using AStar_step_inv by blast
  from res init each show ?thesis by (intro conjI)
qed

theorem AStar_terminates_witness:
  "vertex_start sq_state \<in> set (vertex_index sq_state)
   \<and> vertex_end sq_state \<in> set (vertex_index sq_state)
   \<and> (\<exists>s'. AStar ex_env sq_state True = Some (Inr ([2, 3], [1, 0], s')))
   \<and> length [1, 0 :: nat] < length (vertex_index sq_state)"
proof -
  have a: "vertex_start sq_state \<in> set (vertex_index sq_state)" by code_simp
  have b: "vertex_end sq_state \<in> set (vertex_index sq_state)" by code_simp
  have c: "map_option (map_sum id (\<lambda>(openSet, closedSet, s'). (openSet, closedSet)))
             (loop_fuel 5 (AStar_step ex_env True) (AStar_init ex_env sq_state)) = Some (Inr ([2, 3], [1, 0]))"
    by code_simp
  then obtain s' where "loop_fuel 5 (AStar_step ex_env True) (AStar_init ex_env sq_state)
      = Some (Inr ([2, 3], [1, 0], s'))"
    by (auto simp: map_option_case map_sum_def split: option.splits sum.splits)
  then have s': "AStar ex_env sq_state True = Some (Inr ([2, 3], [1, 0], s'))"
    unfolding AStar_def by (rule loop_fuel_sound)
  from AStar_terminates [OF a b, of ex_env True] s'
  have "length [1, 0 :: nat] < length (vertex_index sq_state)" by simp
  with a b s' show ?thesis by blast
qed

subsection \<open>The search avoids the screen border\<close>

lemma vpt_update:
  "v x = v (h ! a) \<Longrightarrow> vpt (h[a := x]) i = vpt h i"
  by (cases "a < length h"; cases "i = a") (simp_all add: vpt_def list_update_beyond)

lemma relax_vertex_vpt:
  "vpt (snd (relax_vertex e s av vmin closedSet a oh)) i = vpt (snd oh) i"
  by (simp add: relax_vertex_def Let_def vpt_update)

lemma relax_vertex_prev:
  "path_prev (snd (relax_vertex e s av vmin closedSet a oh) ! u) = path_prev (snd oh ! u)
   \<or> path_prev (snd (relax_vertex e s av vmin closedSet a oh) ! u) = Some vmin"
  by (cases "a < length (snd oh)"; cases "u = a")
     (simp_all add: relax_vertex_def Let_def list_update_beyond)

lemma relax_vertex_new:
  "u \<in> set (fst (relax_vertex e s True vmin closedSet a oh)) \<Longrightarrow>
     u \<in> set (fst oh) \<or> u = vertex_end s \<or> \<not> pointOnScreenBorder s (vpt (snd oh) u)"
  by (auto simp: relax_vertex_def Let_def split: if_splits)

lemma relax_vpt:
  "vpt (snd (relax e s av vmin closedSet vs oh)) i = vpt (snd oh) i"
  by (induction vs arbitrary: oh) (simp_all add: relax_vertex_vpt)

lemma relax_prev:
  "path_prev (snd (relax e s av vmin closedSet vs oh) ! u) = path_prev (snd oh ! u)
   \<or> path_prev (snd (relax e s av vmin closedSet vs oh) ! u) = Some vmin"
proof (induction vs arbitrary: oh)
  case Nil
  then show ?case by simp
next
  case (Cons a vs)
  from Cons.IH [of "relax_vertex e s av vmin closedSet a oh"]
    relax_vertex_prev [of e s av vmin closedSet a oh u]
  show ?case by (simp only: relax.simps) metis
qed

lemma relax_new:
  "u \<in> set (fst (relax e s True vmin closedSet vs oh)) \<Longrightarrow>
     u \<in> set (fst oh) \<or> u = vertex_end s \<or> \<not> pointOnScreenBorder s (vpt (snd oh) u)"
proof (induction vs arbitrary: oh)
  case Nil
  then show ?case by simp
next
  case (Cons a vs)
  let ?oh = "relax_vertex e s True vmin closedSet a oh"
  from Cons.prems have "u \<in> set (fst (relax e s True vmin closedSet vs ?oh))" by simp
  from Cons.IH [OF this]
  have "u \<in> set (fst ?oh) \<or> u = vertex_end s \<or> \<not> pointOnScreenBorder s (vpt (snd oh) u)"
    by (simp add: relax_vertex_vpt)
  with relax_vertex_new [of u e s vmin closedSet a oh] show ?case by blast
qed


lemma AStar_step_Inr:
  assumes "AStar_step e av (openSet, closedSet, s') = Inr c'"
  obtains k where "find_min (heap s') openSet 0 None HUGE_DISTANCE = Some k"
    and "openSet ! k \<noteq> vertex_end s'"
    and "c' = (fst (relax e s' av (openSet ! k) (openSet ! k # closedSet)
                     (visible_vertices s' (openSet ! k)) (erase k openSet, heap s')),
               openSet ! k # closedSet,
               s'\<lparr>heap := snd (relax e s' av (openSet ! k) (openSet ! k # closedSet)
                     (visible_vertices s' (openSet ! k)) (erase k openSet, heap s'))\<rparr>)"
  using assms by (auto simp: AStar_step_def Let_def split: if_splits option.splits)

lemma border_heap: "pointOnScreenBorder (s\<lparr>heap := h\<rparr>) p = pointOnScreenBorder s p"
  by (simp add: pointOnScreenBorder_def)

lemma AStar_step_border:
  assumes inv: "border_inv s c" and step: "AStar_step e True c = Inr c'"
  shows "border_inv s c'"
proof -
  obtain openSet closedSet s' where c: "c = (openSet, closedSet, s')" by (cases c)
  from inv c have ai: "astar_inv s (openSet, closedSet, s')"
    and ob: "\<forall>u \<in> set openSet \<union> set closedSet. off_border s u"
    and vp: "\<forall>i. vpt (heap s') i = vpt (heap s) i"
    and pp: "\<forall>u \<in> set (vertex_index s). \<forall>w. path_prev (heap s' ! u) = Some w \<longrightarrow> w \<in> set closedSet"
    by (simp_all add: border_inv_def)
  from ai have s': "s' = s\<lparr>heap := heap s'\<rparr>" and d: "distinct openSet" by (simp_all add: astar_inv_def)
  from step c obtain k where k: "find_min (heap s') openSet 0 None HUGE_DISTANCE = Some k"
    and c': "c' = (fst (relax e s' True (openSet ! k) (openSet ! k # closedSet)
                     (visible_vertices s' (openSet ! k)) (erase k openSet, heap s')),
               openSet ! k # closedSet,
               s'\<lparr>heap := snd (relax e s' True (openSet ! k) (openSet ! k # closedSet)
                     (visible_vertices s' (openSet ! k)) (erase k openSet, heap s'))\<rparr>)"
    by (auto elim: AStar_step_Inr)
  let ?vm = "openSet ! k"
  let ?oh = "relax e s' True ?vm (?vm # closedSet) (visible_vertices s' ?vm) (erase k openSet, heap s')"
  from find_min_bound [OF k] have kl: "k < length openSet" .
  then have vm: "?vm \<in> set openSet" by simp
  from erase_set(1) [OF d kl] have er: "set (erase k openSet) \<subseteq> set openSet" by simp
  from AStar_step_inv [OF ai] step c have ai': "astar_inv s c'" by simp
  have ve: "vertex_end s' = vertex_end s" by (subst s') simp
  have bd: "pointOnScreenBorder s' p = pointOnScreenBorder s p" for p
    by (subst s') (rule border_heap)
  have ob': "off_border s u" if "u \<in> set (fst ?oh) \<union> set (?vm # closedSet)" for u
  proof -
    from that consider "u \<in> set (fst ?oh)" | "u = ?vm" | "u \<in> set closedSet" by auto
    then show ?thesis
    proof cases
      case 1
      from relax_new [OF 1]
      have "u \<in> set (erase k openSet) \<or> u = vertex_end s \<or> \<not> pointOnScreenBorder s (vpt (heap s) u)"
        using vp by (simp add: ve bd)
      with er ob show ?thesis by (auto simp: off_border_def)
    next
      case 2
      with vm ob show ?thesis by simp
    next
      case 3
      with ob show ?thesis by simp
    qed
  qed
  have vp': "vpt (snd ?oh) i = vpt (heap s) i" for i
    using vp by (simp add: relax_vpt)
  have pp': "w \<in> set (?vm # closedSet)" if "u \<in> set (vertex_index s)" and "path_prev (snd ?oh ! u) = Some w" for u w
  proof -
    from relax_prev [of e s' True ?vm "?vm # closedSet" "visible_vertices s' ?vm" "(erase k openSet, heap s')" u]
    have "path_prev (snd ?oh ! u) = path_prev (heap s' ! u) \<or> path_prev (snd ?oh ! u) = Some ?vm"
      by simp
    with that pp show ?thesis by auto
  qed
  from ai' ob' vp' pp' show ?thesis
    unfolding c' border_inv_def by simp
qed

lemma AStar_init_border:
  assumes "vertex_start s \<in> set (vertex_index s)"
    and "\<forall>u \<in> set (vertex_index s). path_prev (heap s ! u) = None"
  shows "border_inv s (AStar_init e s)"
proof -
  let ?h = "(heap s)[vertex_start s := (heap s ! vertex_start s)
          \<lparr>costF := dist e (vpt (heap s) (vertex_start s)) (vpt (heap s) (vertex_end s)),
           costG := 0\<rparr>]"
  have "vpt ?h i = vpt (heap s) i" for i by (rule vpt_update) simp
  moreover have "path_prev (?h ! u) = path_prev (heap s ! u)" for u
    by (cases "vertex_start s < length (heap s)"; cases "u = vertex_start s")
       (simp_all add: list_update_beyond)
  ultimately show ?thesis
    using assms AStar_init_inv [OF assms(1), of e]
    by (simp add: border_inv_def AStar_init_def off_border_def)
qed

lemma path_step_chain:
  assumes walk: "path_walk h vertex = Some path"
    and start: "vertex \<in> A" "good vertex"
    and closed: "\<And>u w. u \<in> A \<Longrightarrow> path_prev (h ! u) = Some w \<Longrightarrow> w \<in> A \<and> good w"
  shows "\<forall>u \<in> set path. good u"
proof -
  define K where "K = (\<lambda>a :: nat option \<times> nat list.
     (\<forall>u \<in> set (snd a). good u) \<and> (\<forall>u. fst a = Some u \<longrightarrow> u \<in> A \<and> good u))"
  from walk have w: "loop_until (path_step h) (Some vertex, []) = Some path"
    by (simp add: path_walk_def)
  have i0: "K (Some vertex, [])" using start by (simp add: K_def)
  have st: "K b" if ka: "K a" and pb: "path_step h a = Inr b" for a b
  proof -
    obtain vx p where a: "a = (vx, p)" by (cases a)
    from pb a obtain u where u: "vx = Some u" and b: "b = (path_prev (h ! u), u # p)"
      by (cases vx) (simp_all add: path_step_def)
    from ka a u have gp: "\<forall>x \<in> set p. good x" and ua: "u \<in> A" and gu: "good u"
      by (simp_all add: K_def)
    have "\<forall>w. path_prev (h ! u) = Some w \<longrightarrow> w \<in> A \<and> good w"
      using closed [OF ua] by blast
    with gp gu show ?thesis by (simp add: K_def b)
  qed
  have "\<exists>a. K a \<and> path_step h a = Inl path"
    using w i0 st by (rule loop_until_invariant)
  then obtain a where a: "K a" "path_step h a = Inl path" by blast
  obtain vx p where ap: "a = (vx, p)" by (cases a)
  from a(2) ap have "p = path" by (cases vx) (simp_all add: path_step_def)
  with a(1) ap show ?thesis by (simp add: K_def)
qed

text \<open>
  Claim C7. When \<open>AStar\<close> runs with \<open>avoidScreenEdge\<close> set, from a state whose
  vertices have no predecessor yet (as the constructor leaves them), every vertex it ever
  put on the open set (they are all on the open or the closed set it leaves) is the start
  vertex, the end vertex, or not on the screen border; and every vertex on the walk along
  the predecessors, from the end vertex back, is the start vertex, the end vertex, or not
  on the screen border.
\<close>

theorem AStar_avoids_screen_border:
  assumes "vertex_start s \<in> set (vertex_index s)" and "vertex_end s \<in> set (vertex_index s)"
    and "\<forall>u \<in> set (vertex_index s). path_prev (heap s ! u) = None"
    and "AStar e s True = Some (Inr (openSet, closedSet, s'))"
  shows "(\<forall>u \<in> set openSet \<union> set closedSet.
            u = vertex_start s \<or> u = vertex_end s
            \<or> \<not> pointOnScreenBorder s (vpt (heap s) u))
         \<and> (\<forall>path. path_walk (heap s') (vertex_end s') = Some path \<longrightarrow>
               (\<forall>u \<in> set path.
                  u = vertex_start s \<or> u = vertex_end s
                  \<or> \<not> pointOnScreenBorder s (vpt (heap s) u)))"
proof -
  have init: "border_inv s (AStar_init e s)" by (rule AStar_init_border [OF assms(1,3)])
  from assms(4) have "loop_until (AStar_step e True) (AStar_init e s) = Some (Inr (openSet, closedSet, s'))"
    by (simp add: AStar_def)
  moreover have "border_inv s b" if "border_inv s a" and "AStar_step e True a = Inr b" for a b
    using that by (rule AStar_step_border)
  ultimately have "\<exists>a. border_inv s a \<and> AStar_step e True a = Inl (Inr (openSet, closedSet, s'))"
    using init by (intro loop_until_invariant [where I = "border_inv s"]) 
  then obtain a where a: "border_inv s a" "AStar_step e True a = Inl (Inr (openSet, closedSet, s'))"
    by blast
  from AStar_step_final [OF a(2)] a(1) have inv: "border_inv s (openSet, closedSet, s')" by simp
  then have ai: "astar_inv s (openSet, closedSet, s')"
    and ob: "\<forall>u \<in> set openSet \<union> set closedSet. off_border s u"
    and pp: "\<forall>u \<in> set (vertex_index s). \<forall>w. path_prev (heap s' ! u) = Some w \<longrightarrow> w \<in> set closedSet"
    by (simp_all add: border_inv_def)
  from ai have s': "s' = s\<lparr>heap := heap s'\<rparr>" and sub: "set closedSet \<subseteq> set (vertex_index s)"
    by (simp_all add: astar_inv_def)
  have ve: "vertex_end s' = vertex_end s" by (subst s') simp
  have chain: "\<forall>u \<in> set path. off_border s u" if "path_walk (heap s') (vertex_end s') = Some path" for path
  proof (rule path_step_chain [OF that, where A = "set (vertex_index s)"])
    show "vertex_end s' \<in> set (vertex_index s)" using assms(2) ve by simp
    show "off_border s (vertex_end s')" by (simp add: off_border_def ve)
    fix u w assume "u \<in> set (vertex_index s)" and "path_prev (heap s' ! u) = Some w"
    with pp have "w \<in> set closedSet" by blast
    with sub ob show "w \<in> set (vertex_index s) \<and> off_border s w" by auto
  qed
  from ob chain show ?thesis unfolding off_border_def by blast
qed


theorem AStar_avoids_screen_border_witness:
  "vertex_start bd_state \<in> set (vertex_index bd_state)
   \<and> vertex_end bd_state \<in> set (vertex_index bd_state)
   \<and> list_all (\<lambda>u. path_prev (heap bd_state ! u) = None) (vertex_index bd_state)
   \<and> (\<exists>s'. AStar ex_env bd_state True = Some (Inr ([2], [1, 0], s'))
           \<and> path_walk (heap s') (vertex_end s') = Some [0, 1, 2])
   \<and> 3 \<in> set (visible_vertices bd_state 0)
   \<and> pointOnScreenBorder bd_state (vpt (heap bd_state) 3)
   \<and> 3 \<notin> set [2] \<union> set [1, 0 :: nat]
   \<and> \<not> pointOnScreenBorder bd_state (vpt (heap bd_state) 1)"
proof -
  have a: "vertex_start bd_state \<in> set (vertex_index bd_state)" by code_simp
  have b: "vertex_end bd_state \<in> set (vertex_index bd_state)" by code_simp
  have c': "list_all (\<lambda>u. path_prev (heap bd_state ! u) = None) (vertex_index bd_state)"
    by code_simp
  then have c: "\<forall>u \<in> set (vertex_index bd_state). path_prev (heap bd_state ! u) = None"
    by (simp only: list_all_iff)
  have v: "3 \<in> set (visible_vertices bd_state 0)" by code_simp
  have p3: "pointOnScreenBorder bd_state (vpt (heap bd_state) 3)" by code_simp
  have se: "vertex_start bd_state = 0" "vertex_end bd_state = 2" by code_simp+
  have "case loop_fuel 5 (AStar_step ex_env True) (AStar_init ex_env bd_state) of
          Some (Inr (openSet, closedSet, s')) \<Rightarrow>
            openSet = [2] \<and> closedSet = [1, 0]
            \<and> loop_fuel 5 (path_step (heap s')) (Some (vertex_end s'), []) = Some [0, 1, 2]
        | _ \<Rightarrow> False"
    by code_simp
  then obtain s' where r: "loop_fuel 5 (AStar_step ex_env True) (AStar_init ex_env bd_state)
        = Some (Inr ([2], [1, 0], s'))"
    and w: "loop_fuel 5 (path_step (heap s')) (Some (vertex_end s'), []) = Some [0, 1, 2]"
    by (auto split: option.splits sum.splits)
  from r have r': "AStar ex_env bd_state True = Some (Inr ([2], [1, 0], s'))"
    unfolding AStar_def by (rule loop_fuel_sound)
  from w have w': "path_walk (heap s') (vertex_end s') = Some [0, 1, 2]"
    unfolding path_walk_def by (rule loop_fuel_sound)
  note T = AStar_avoids_screen_border [OF a b c r']
  from T [THEN conjunct1] p3 se have n3: "3 \<notin> set [2] \<union> set [1, 0 :: nat]" by auto
  from T [THEN conjunct2, rule_format, OF w', of 1] se
  have n1: "\<not> pointOnScreenBorder bd_state (vpt (heap bd_state) 1)" by simp
  from r' w' have ex: "\<exists>s'. AStar ex_env bd_state True = Some (Inr ([2], [1, 0], s'))
           \<and> path_walk (heap s') (vertex_end s') = Some [0, 1, 2]"
    by blast
  from a b c' ex v p3 n3 n1 show ?thesis by (intro conjI)
qed

subsection \<open>The end-point fixup\<close>

lemma findNearPoint_state:
  "findNearPoint e (s\<lparr>polygons := ps, appendPoint := a\<rparr>) p polygon = findNearPoint e s p polygon"
  by (simp add: findNearPoint_def)

lemma loop_reaches_loop_until:
  "loop_reaches step x y \<Longrightarrow> loop_until step x = loop_until step y"
proof (induction rule: loop_reaches.induct)
  case start
  show ?case ..
next
  case (pass y z)
  have "loop_until step y = loop_until step z"
    using pass.hyps(2) by (rule loop_until_Inr)
  with pass.IH show ?case by simp
qed

lemma loop_reaches_result:
  assumes "loop_reaches step x y" and "step y = Inl r"
  shows "loop_until step x = Some r"
proof -
  have "loop_until step x = loop_until step y"
    using assms(1) by (rule loop_reaches_loop_until)
  also have "\<dots> = Some r"
    using assms(2) by (rule loop_until_Inl)
  finally show ?thesis .
qed

lemma loop_reaches_trans:
  assumes "loop_reaches step y z" and "loop_reaches step x y"
  shows "loop_reaches step x z"
  using assms
proof (induction rule: loop_reaches.induct)
  case start
  then show ?case .
next
  case (pass z w)
  from pass.IH [OF pass.prems] pass.hyps(2) show ?case by (rule loop_reaches.pass)
qed

lemma end_state_init:
  "appendPoint s = None \<Longrightarrow> s\<lparr>polygons := polygons s, appendPoint := None\<rparr> = s"
  by (cases s) simp

lemma end_step_drop:
  "dropped (heap s) end Q \<Longrightarrow>
   fixup_end_step e end (length xs, ne, s\<lparr>polygons := xs @ Q # rest, appendPoint := a\<rparr>)
   = Inr (length xs, ne, s\<lparr>polygons := xs @ rest, appendPoint := a\<rparr>)"
  by (simp add: fixup_end_step_def Let_def nth_append erase_def dropped_def)

lemma end_step_stay:
  "\<not> relocates (heap s) end Q \<Longrightarrow> \<not> dropped (heap s) end Q \<Longrightarrow>
   fixup_end_step e end (length xs, ne, s\<lparr>polygons := xs @ Q # rest, appendPoint := a\<rparr>)
   = Inr (length xs + 1, ne, s\<lparr>polygons := xs @ Q # rest, appendPoint := a\<rparr>)"
  by (auto simp add: fixup_end_step_def Let_def nth_append dropped_def relocates_def)

lemma end_step_move:
  "relocates (heap s) end Q \<Longrightarrow>
   fixup_end_step e end (length xs, ne, s\<lparr>polygons := xs @ Q # rest, appendPoint := None\<rparr>)
   = (case findNearPoint e s end Q of
        PF_OK q \<Rightarrow>
          Inr (length xs + 1, q,
               s\<lparr>polygons := xs @ Q # rest,
                 appendPoint := if ptype Q = POLY_NEAREST_ACCESS then Some end else None\<rparr>)
      | PF_ERROR \<Rightarrow> Inl (None, s\<lparr>polygons := xs @ Q # rest, appendPoint := None\<rparr>)
      | PF_FATAL \<Rightarrow> Inl (None, s\<lparr>polygons := xs @ Q # rest, appendPoint := None\<rparr>))"
  by (auto simp add: fixup_end_step_def Let_def nth_append relocates_def findNearPoint_state
      split: pf_result.split)

lemma end_step_exit:
  "fixup_end_step e end (length xs, ne, s\<lparr>polygons := xs, appendPoint := a\<rparr>)
   = Inl (Some ne, s\<lparr>polygons := xs, appendPoint := a\<rparr>)"
  by (simp add: fixup_end_step_def)


lemma end_reaches_prefix:
  assumes a: "appendPoint s = None"
    and ok: "\<forall>Q \<in> set dn. relocates (heap s) end Q \<longrightarrow>
               ptype Q \<noteq> POLY_NEAREST_ACCESS \<and> (\<exists>r. findNearPoint e s end Q = PF_OK r)"
    and ps: "polygons s = dn @ rest"
  shows "\<exists>new_end.
           (if filter (relocates (heap s) end) dn = [] then new_end = end
            else findNearPoint e s end (last (filter (relocates (heap s) end) dn)) = PF_OK new_end)
           \<and> loop_reaches (fixup_end_step e end) (0, end, s)
               (length (filter (\<lambda>P. \<not> dropped (heap s) end P) dn), new_end,
                s\<lparr>polygons := filter (\<lambda>P. \<not> dropped (heap s) end P) dn @ rest,
                  appendPoint := None\<rparr>)"
  using ok ps
proof (induction dn arbitrary: rest rule: rev_induct)
  case Nil
  have "loop_reaches (fixup_end_step e end) (0, end, s) (0, end, s)"
    by (rule loop_reaches.start)
  moreover have "s\<lparr>polygons := rest, appendPoint := None\<rparr> = s"
    using Nil.prems(2) end_state_init [OF a] by simp
  ultimately show ?case by simp
next
  case (snoc Q dn)
  let ?keep = "\<lambda>P. \<not> dropped (heap s) end P"
  let ?R = "relocates (heap s) end"
  let ?xs = "filter ?keep dn"
  have ok': "\<forall>Q \<in> set dn. ?R Q \<longrightarrow>
               ptype Q \<noteq> POLY_NEAREST_ACCESS \<and> (\<exists>r. findNearPoint e s end Q = PF_OK r)"
    using snoc.prems(1) by simp
  have ps': "polygons s = dn @ Q # rest"
    using snoc.prems(2) by simp
  from snoc.IH [OF ok' ps'] obtain ne where
    ne: "if filter ?R dn = [] then ne = end
         else findNearPoint e s end (last (filter ?R dn)) = PF_OK ne"
    and re: "loop_reaches (fixup_end_step e end) (0, end, s)
               (length ?xs, ne, s\<lparr>polygons := ?xs @ Q # rest, appendPoint := None\<rparr>)"
    by blast
  consider (drop) "dropped (heap s) end Q"
    | (stay) "\<not> ?R Q" "\<not> dropped (heap s) end Q"
    | (move) "?R Q"
    by blast
  then show ?case
  proof cases
    case drop
    then have nr: "\<not> ?R Q" by (simp add: dropped_def relocates_def)
    have fR: "filter ?R (dn @ [Q]) = filter ?R dn" using nr by simp
    have fK: "filter ?keep (dn @ [Q]) = ?xs" using drop by simp
    have "loop_reaches (fixup_end_step e end) (0, end, s)
            (length ?xs, ne, s\<lparr>polygons := ?xs @ rest, appendPoint := None\<rparr>)"
      using re end_step_drop [OF drop] by (rule loop_reaches.pass)
    then have g2: "loop_reaches (fixup_end_step e end) (0, end, s)
            (length (filter ?keep (dn @ [Q])), ne,
             s\<lparr>polygons := filter ?keep (dn @ [Q]) @ rest, appendPoint := None\<rparr>)"
      by (simp only: fK)
    have g1: "if filter ?R (dn @ [Q]) = [] then ne = end
              else findNearPoint e s end (last (filter ?R (dn @ [Q]))) = PF_OK ne"
      using ne by (simp only: fR)
    show ?thesis by (rule exI [of _ ne]) (rule conjI [OF g1 g2])
  next
    case stay
    have fR: "filter ?R (dn @ [Q]) = filter ?R dn" using stay by simp
    have fK: "filter ?keep (dn @ [Q]) = ?xs @ [Q]" using stay by simp
    have "loop_reaches (fixup_end_step e end) (0, end, s)
            (length ?xs + 1, ne, s\<lparr>polygons := ?xs @ Q # rest, appendPoint := None\<rparr>)"
      using re end_step_stay [OF stay] by (rule loop_reaches.pass)
    then have g2: "loop_reaches (fixup_end_step e end) (0, end, s)
            (length (filter ?keep (dn @ [Q])), ne,
             s\<lparr>polygons := filter ?keep (dn @ [Q]) @ rest, appendPoint := None\<rparr>)"
      unfolding fK by simp
    have g1: "if filter ?R (dn @ [Q]) = [] then ne = end
              else findNearPoint e s end (last (filter ?R (dn @ [Q]))) = PF_OK ne"
      using ne by (simp only: fR)
    show ?thesis by (rule exI [of _ ne]) (rule conjI [OF g1 g2])
  next
    case move
    then have nd: "\<not> dropped (heap s) end Q" by (auto simp add: dropped_def relocates_def)
    from move snoc.prems(1) obtain r where nn: "ptype Q \<noteq> POLY_NEAREST_ACCESS"
      and r: "findNearPoint e s end Q = PF_OK r"
      by auto
    have fR: "filter ?R (dn @ [Q]) = filter ?R dn @ [Q]" using move by simp
    have fK: "filter ?keep (dn @ [Q]) = ?xs @ [Q]" using nd by simp
    have "fixup_end_step e end (length ?xs, ne, s\<lparr>polygons := ?xs @ Q # rest, appendPoint := None\<rparr>)
          = Inr (length ?xs + 1, r, s\<lparr>polygons := ?xs @ Q # rest, appendPoint := None\<rparr>)"
      using end_step_move [OF move, of e ?xs ne rest] nn r by simp
    with re have "loop_reaches (fixup_end_step e end) (0, end, s)
            (length ?xs + 1, r, s\<lparr>polygons := ?xs @ Q # rest, appendPoint := None\<rparr>)"
      by (rule loop_reaches.pass)
    then have g2: "loop_reaches (fixup_end_step e end) (0, end, s)
            (length (filter ?keep (dn @ [Q])), r,
             s\<lparr>polygons := filter ?keep (dn @ [Q]) @ rest, appendPoint := None\<rparr>)"
      unfolding fK by simp
    have g1: "if filter ?R (dn @ [Q]) = [] then r = end
              else findNearPoint e s end (last (filter ?R (dn @ [Q]))) = PF_OK r"
      unfolding fR using r by simp
    show ?thesis by (rule exI [of _ r]) (rule conjI [OF g1 g2])
  qed
qed

lemma end_reaches_rest:
  assumes "\<forall>Q \<in> set rest. \<not> relocates (heap s) end Q"
  shows "loop_reaches (fixup_end_step e end)
           (length xs, ne, s\<lparr>polygons := xs @ rest, appendPoint := a\<rparr>)
           (length (xs @ filter (\<lambda>P. \<not> dropped (heap s) end P) rest), ne,
            s\<lparr>polygons := xs @ filter (\<lambda>P. \<not> dropped (heap s) end P) rest, appendPoint := a\<rparr>)"
  using assms
proof (induction rest arbitrary: xs)
  case Nil
  show ?case by (simp add: loop_reaches.start)
next
  case (Cons Q rest)
  let ?keep = "\<lambda>P. \<not> dropped (heap s) end P"
  let ?st = "fixup_end_step e end"
  have nr: "\<not> relocates (heap s) end Q" and nrs: "\<forall>Q \<in> set rest. \<not> relocates (heap s) end Q"
    using Cons.prems by simp_all
  show ?case
  proof (cases "dropped (heap s) end Q")
    case True
    have "loop_reaches ?st (length xs, ne, s\<lparr>polygons := xs @ Q # rest, appendPoint := a\<rparr>)
            (length xs, ne, s\<lparr>polygons := xs @ rest, appendPoint := a\<rparr>)"
      using loop_reaches.start end_step_drop [OF True] by (rule loop_reaches.pass)
    with Cons.IH [OF nrs, of xs]
    have "loop_reaches ?st (length xs, ne, s\<lparr>polygons := xs @ Q # rest, appendPoint := a\<rparr>)
            (length (xs @ filter ?keep rest), ne,
             s\<lparr>polygons := xs @ filter ?keep rest, appendPoint := a\<rparr>)"
      by (rule loop_reaches_trans)
    with True show ?thesis by simp
  next
    case False
    have "loop_reaches ?st (length xs, ne, s\<lparr>polygons := xs @ Q # rest, appendPoint := a\<rparr>)
            (length xs + 1, ne, s\<lparr>polygons := xs @ Q # rest, appendPoint := a\<rparr>)"
      using loop_reaches.start end_step_stay [OF nr False] by (rule loop_reaches.pass)
    then have "loop_reaches ?st (length xs, ne, s\<lparr>polygons := xs @ Q # rest, appendPoint := a\<rparr>)
            (length (xs @ [Q]), ne, s\<lparr>polygons := (xs @ [Q]) @ rest, appendPoint := a\<rparr>)"
      by simp
    with Cons.IH [OF nrs, of "xs @ [Q]"]
    have "loop_reaches ?st (length xs, ne, s\<lparr>polygons := xs @ Q # rest, appendPoint := a\<rparr>)
            (length ((xs @ [Q]) @ filter ?keep rest), ne,
             s\<lparr>polygons := (xs @ [Q]) @ filter ?keep rest, appendPoint := a\<rparr>)"
      by (rule loop_reaches_trans)
    with False show ?thesis by simp
  qed
qed




text \<open>
  Claim C6, as amended. Take the end-point fixup started without an append point, and a
  polygon of type BarredAccess, NearestAccess or ContainedAccess that holds the end point
  (inside or on its edge), such that every such polygon before it in the list is not of type
  NearestAccess and has had its near point found. Then the loop reaches the polygon with no
  append point recorded, the end point being the near point of the last such polygon before
  it (the original end point when there is none). If \<open>findNearPoint\<close> succeeds there,
  the loop goes on with the end point relocated to the point found and with the original end
  point recorded as the append point exactly when the polygon is of type NearestAccess; if
  no such polygon follows, the fixup returns this end point, the polygons left being those
  that were not removed. If \<open>findNearPoint\<close> fails there, the fixup returns \<open>NULL\<close>.
\<close>

theorem fixup_end_point_relocation:
  assumes "appendPoint s = None"
    and "polygons s = dn @ P # rest"
    and "relocates (heap s) end P"
    and "\<forall>Q \<in> set dn. relocates (heap s) end Q \<longrightarrow>
           ptype Q \<noteq> POLY_NEAREST_ACCESS \<and> (\<exists>r. findNearPoint e s end Q = PF_OK r)"
  shows "\<exists>new_end.
     (if filter (relocates (heap s) end) dn = [] then new_end = end
      else findNearPoint e s end (last (filter (relocates (heap s) end) dn)) = PF_OK new_end)
     \<and> loop_reaches (fixup_end_step e end) (0, end, s)
         (length (filter (\<lambda>Q. \<not> dropped (heap s) end Q) dn), new_end,
          s\<lparr>polygons := filter (\<lambda>Q. \<not> dropped (heap s) end Q) dn @ P # rest,
            appendPoint := None\<rparr>)
     \<and> (\<forall>q. findNearPoint e s end P = PF_OK q \<longrightarrow>
          loop_reaches (fixup_end_step e end) (0, end, s)
            (length (filter (\<lambda>Q. \<not> dropped (heap s) end Q) dn) + 1, q,
             s\<lparr>polygons := filter (\<lambda>Q. \<not> dropped (heap s) end Q) dn @ P # rest,
               appendPoint := if ptype P = POLY_NEAREST_ACCESS then Some end else None\<rparr>)
          \<and> ((\<forall>Q \<in> set rest. \<not> relocates (heap s) end Q) \<longrightarrow>
               fixup_end_point e s end
               = Some (Some q,
                   s\<lparr>polygons := filter (\<lambda>Q. \<not> dropped (heap s) end Q) (polygons s),
                     appendPoint := if ptype P = POLY_NEAREST_ACCESS then Some end else None\<rparr>)))
     \<and> ((\<forall>q. findNearPoint e s end P \<noteq> PF_OK q) \<longrightarrow>
          fixup_end_point e s end
          = Some (None,
              s\<lparr>polygons := filter (\<lambda>Q. \<not> dropped (heap s) end Q) dn @ P # rest,
                appendPoint := None\<rparr>))"
proof -
  let ?keep = "\<lambda>Q. \<not> dropped (heap s) end Q"
  let ?xs = "filter ?keep dn"
  let ?st = "fixup_end_step e end"
  let ?ap = "if ptype P = POLY_NEAREST_ACCESS then Some end else None"
  from end_reaches_prefix [OF assms(1) assms(4) assms(2)] obtain ne where
    ne: "if filter (relocates (heap s) end) dn = [] then ne = end
         else findNearPoint e s end (last (filter (relocates (heap s) end) dn)) = PF_OK ne"
    and re: "loop_reaches ?st (0, end, s)
               (length ?xs, ne, s\<lparr>polygons := ?xs @ P # rest, appendPoint := None\<rparr>)"
    by blast
  note mv = end_step_move [OF assms(3), of e ?xs ne rest]
  have kp: "?keep P"
    using assms(3) by (auto simp add: dropped_def relocates_def)
  have ok: "loop_reaches ?st (0, end, s)
              (length ?xs + 1, q, s\<lparr>polygons := ?xs @ P # rest, appendPoint := ?ap\<rparr>)"
    if q: "findNearPoint e s end P = PF_OK q" for q
  proof -
    have "?st (length ?xs, ne, s\<lparr>polygons := ?xs @ P # rest, appendPoint := None\<rparr>)
          = Inr (length ?xs + 1, q, s\<lparr>polygons := ?xs @ P # rest, appendPoint := ?ap\<rparr>)"
      using mv q by simp
    with re show ?thesis by (rule loop_reaches.pass)
  qed
  have fin: "fixup_end_point e s end
             = Some (Some q, s\<lparr>polygons := filter ?keep (polygons s), appendPoint := ?ap\<rparr>)"
    if q: "findNearPoint e s end P = PF_OK q"
      and nr: "\<forall>Q \<in> set rest. \<not> relocates (heap s) end Q" for q
  proof -
    have "loop_reaches ?st (0, end, s)
            (length (?xs @ [P]), q, s\<lparr>polygons := (?xs @ [P]) @ rest, appendPoint := ?ap\<rparr>)"
      using ok [OF q] by simp
    with end_reaches_rest [OF nr, of e "?xs @ [P]" q ?ap]
    have r1: "loop_reaches ?st (0, end, s)
            (length ((?xs @ [P]) @ filter ?keep rest), q,
             s\<lparr>polygons := (?xs @ [P]) @ filter ?keep rest, appendPoint := ?ap\<rparr>)"
      by (rule loop_reaches_trans)
    have eq: "(?xs @ [P]) @ filter ?keep rest = filter ?keep (polygons s)"
      using kp by (simp add: assms(2))
    from r1 have "loop_reaches ?st (0, end, s)
            (length (filter ?keep (polygons s)), q,
             s\<lparr>polygons := filter ?keep (polygons s), appendPoint := ?ap\<rparr>)"
      unfolding eq .
    then have "loop_until ?st (0, end, s)
               = Some (Some q, s\<lparr>polygons := filter ?keep (polygons s), appendPoint := ?ap\<rparr>)"
      using end_step_exit by (rule loop_reaches_result)
    then show ?thesis by (simp only: fixup_end_point_def)
  qed
  have bad: "fixup_end_point e s end
             = Some (None, s\<lparr>polygons := ?xs @ P # rest, appendPoint := None\<rparr>)"
    if f: "\<forall>q. findNearPoint e s end P \<noteq> PF_OK q"
  proof -
    have "?st (length ?xs, ne, s\<lparr>polygons := ?xs @ P # rest, appendPoint := None\<rparr>)
          = Inl (None, s\<lparr>polygons := ?xs @ P # rest, appendPoint := None\<rparr>)"
      using mv f by (cases "findNearPoint e s end P") simp_all
    with re have "loop_until ?st (0, end, s)
               = Some (None, s\<lparr>polygons := ?xs @ P # rest, appendPoint := None\<rparr>)"
      by (rule loop_reaches_result)
    then show ?thesis by (simp only: fixup_end_point_def)
  qed
  show ?thesis
  proof (rule exI [of _ ne], intro conjI allI impI)
    show "if filter (relocates (heap s) end) dn = [] then ne = end
          else findNearPoint e s end (last (filter (relocates (heap s) end) dn)) = PF_OK ne"
      by (rule ne)
    show "loop_reaches ?st (0, end, s)
            (length ?xs, ne, s\<lparr>polygons := ?xs @ P # rest, appendPoint := None\<rparr>)"
      by (rule re)
  next
    fix q assume "findNearPoint e s end P = PF_OK q"
    then show "loop_reaches ?st (0, end, s)
              (length ?xs + 1, q, s\<lparr>polygons := ?xs @ P # rest, appendPoint := ?ap\<rparr>)"
      by (rule ok)
  next
    fix q assume "findNearPoint e s end P = PF_OK q"
      and "\<forall>Q \<in> set rest. \<not> relocates (heap s) end Q"
    then show "fixup_end_point e s end
             = Some (Some q, s\<lparr>polygons := filter ?keep (polygons s), appendPoint := ?ap\<rparr>)"
      by (rule fin)
  next
    assume "\<forall>q. findNearPoint e s end P \<noteq> PF_OK q"
    then show "fixup_end_point e s end
             = Some (None, s\<lparr>polygons := ?xs @ P # rest, appendPoint := None\<rparr>)"
      by (rule bad)
  qed
qed

theorem fixup_end_point_relocation_witness:
  "fixup_end_point two_env nr_state (Point 12 15)
     = Some (Some (Point 10 15), nr_state\<lparr>appendPoint := Some (Point 12 15)\<rparr>)
   \<and> fixup_end_point two_env bb_state (Point 12 15)
     = Some (Some (Point 5 15), bb_state)
   \<and> loop_reaches (fixup_end_step two_env (Point 12 15)) (0, Point 12 15, two_state)
       (1, Point 10 15, two_state\<lparr>appendPoint := Some (Point 12 15)\<rparr>)
   \<and> fixup_end_point ex_env bar_state (Point 12 15) = Some (None, bar_state)"
proof -
  let ?end = "Point 12 15"
  let ?N = "sq_poly POLY_NEAREST_ACCESS"
  let ?S = "sq_poly POLY_BARRED_ACCESS"
  let ?B = "\<lparr>ptype = POLY_BARRED_ACCESS, vertices = [4, 5, 6, 7]\<rparr>"
  have e: "\<forall>Q \<in> set []. relocates h ?end Q \<longrightarrow>
             ptype Q \<noteq> POLY_NEAREST_ACCESS \<and> (\<exists>r. findNearPoint en s ?end Q = PF_OK r)" for h en s
    by simp
  have a1: "appendPoint nr_state = None" by code_simp
  have p1: "polygons nr_state = [] @ ?N # []" by (simp add: nr_state_def)
  have r1: "relocates (heap nr_state) ?end ?N" by code_simp
  have f1: "findNearPoint two_env nr_state ?end ?N = PF_OK (Point 10 15)" by code_simp
  have k1: "filter (\<lambda>Q. \<not> dropped (heap nr_state) ?end Q) (polygons nr_state) = polygons nr_state"
    by code_simp
  have t1: "ptype ?N = POLY_NEAREST_ACCESS" by (simp add: sq_poly_def)
  note T1 = fixup_end_point_relocation [OF a1 p1 r1 e, of two_env]
  from T1 have w1: "fixup_end_point two_env nr_state ?end
     = Some (Some (Point 10 15), nr_state\<lparr>appendPoint := Some ?end\<rparr>)"
    by (elim exE conjE) (simp add: f1 k1 t1)
  have a2: "appendPoint bb_state = None" by code_simp
  have p2: "polygons bb_state = [?S] @ ?B # []" by (simp add: bb_state_def)
  have r2: "relocates (heap bb_state) ?end ?B" by code_simp
  have f2: "findNearPoint two_env bb_state ?end ?B = PF_OK (Point 5 15)" by code_simp
  have f2': "findNearPoint two_env bb_state ?end ?S = PF_OK (Point 10 15)" by code_simp
  have k2: "filter (\<lambda>Q. \<not> dropped (heap bb_state) ?end Q) (polygons bb_state) = polygons bb_state"
    by code_simp
  have d2: "\<forall>Q \<in> set [?S]. relocates (heap bb_state) ?end Q \<longrightarrow>
             ptype Q \<noteq> POLY_NEAREST_ACCESS \<and> (\<exists>r. findNearPoint two_env bb_state ?end Q = PF_OK r)"
    using f2' by (simp add: sq_poly_def)
  note T2 = fixup_end_point_relocation [OF a2 p2 r2 d2]
  have i2: "bb_state\<lparr>appendPoint := None\<rparr> = bb_state"
    using a2 by (cases bb_state) simp
  from T2 have w2: "fixup_end_point two_env bb_state ?end = Some (Some (Point 5 15), bb_state)"
    by (elim exE conjE) (simp add: f2 k2 i2)
  have a3: "appendPoint two_state = None" by code_simp
  have p3: "polygons two_state = [] @ ?N # [?B]" by (simp add: two_state_def)
  have r3: "relocates (heap two_state) ?end ?N" by code_simp
  have f3: "findNearPoint two_env two_state ?end ?N = PF_OK (Point 10 15)" by code_simp
  note T3 = fixup_end_point_relocation [OF a3 p3 r3 e, of two_env]
  have i3: "two_state\<lparr>polygons := [?N, ?B], appendPoint := a\<rparr> = two_state\<lparr>appendPoint := a\<rparr>" for a
    using p3 by (cases two_state) simp
  from T3 have w3: "loop_reaches (fixup_end_step two_env ?end) (0, ?end, two_state)
       (1, Point 10 15, two_state\<lparr>appendPoint := Some ?end\<rparr>)"
    by (elim exE conjE) (simp add: f3 t1 i3)
  have a4: "appendPoint bar_state = None" by code_simp
  have p4: "polygons bar_state = [] @ ?B # []" by (simp add: bar_state_def)
  have r4: "relocates (heap bar_state) ?end ?B" by code_simp
  have f4: "findNearPoint ex_env bar_state ?end ?B = PF_FATAL" by code_simp
  note T4 = fixup_end_point_relocation [OF a4 p4 r4 e, of ex_env]
  have i4: "bar_state\<lparr>polygons := [?B], appendPoint := None\<rparr> = bar_state"
    using a4 p4 by (cases bar_state) simp
  from T4 have w4: "fixup_end_point ex_env bar_state ?end = Some (None, bar_state)"
    by (elim exE conjE) (simp add: f4 i4)
  from w1 w2 w3 w4 show ?thesis by (intro conjI)
qed

text \<open>
  The claim as stated fails: with a near-point access polygon and then a barred access
  polygon that both hold the end point, the barred polygon does not relocate the end,
  although \<open>findNearPoint\<close> has a point for it. The first polygon records the append
  point, and at the second the loop reaches its \<open>continue\<close> without moving the
  iterator, so the fixup does not return.
\<close>

theorem fixup_end_point_counterexample:
  "ptype (polygons two_state ! 1) = POLY_BARRED_ACCESS
   \<and> contained (heap two_state) (Point 12 15) (polygons two_state ! 1) = CONT_INSIDE
   \<and> appendPoint two_state = None
   \<and> findNearPoint two_env two_state (Point 12 15) (polygons two_state ! 1) = PF_OK (Point 5 15)
   \<and> fixup_end_point two_env two_state (Point 12 15) = None"
proof -
  have t: "ptype (polygons two_state ! 1) = POLY_BARRED_ACCESS" by code_simp
  have c: "contained (heap two_state) (Point 12 15) (polygons two_state ! 1) = CONT_INSIDE"
    by code_simp
  have a: "appendPoint two_state = None" by code_simp
  have f: "findNearPoint two_env two_state (Point 12 15) (polygons two_state ! 1) = PF_OK (Point 5 15)"
    by code_simp
  have s0: "fixup_end_step two_env (Point 12 15) (0, Point 12 15, two_state)
            = Inr (1, Point 10 15, two_state\<lparr>appendPoint := Some (Point 12 15)\<rparr>)"
    by code_simp
  have s1: "fixup_end_step two_env (Point 12 15)
              (1, Point 10 15, two_state\<lparr>appendPoint := Some (Point 12 15)\<rparr>)
            = Inr (1, Point 10 15, two_state\<lparr>appendPoint := Some (Point 12 15)\<rparr>)"
    by code_simp
  have "fixup_end_point two_env two_state (Point 12 15)
        = loop_until (fixup_end_step two_env (Point 12 15))
            (1, Point 10 15, two_state\<lparr>appendPoint := Some (Point 12 15)\<rparr>)"
    unfolding fixup_end_point_def using s0 by (rule loop_until_Inr)
  also have "\<dots> = None" using s1 by (rule loop_until_stuck)
  finally have n: "fixup_end_point two_env two_state (Point 12 15) = None" .
  from t c a f n show ?thesis by (intro conjI)
qed

subsection \<open>A scene without polygons\<close>

lemma fixup_start_none:
  "fixup_start_point e (new_PathfindingState w ht) start = Some (Some start, new_PathfindingState w ht)"
  unfolding fixup_start_point_def
  by (rule loop_until_Inl) (simp add: fixup_start_step_def new_PathfindingState_def)

lemma fixup_end_none:
  "fixup_end_point e (new_PathfindingState w ht) end = Some (Some end, new_PathfindingState w ht)"
  unfolding fixup_end_point_def
  by (rule loop_until_Inl) (simp add: fixup_end_step_def new_PathfindingState_def)

lemma merge_direct:
  assumes "start \<noteq> end"
  shows "build_index (merge_start_end e (new_PathfindingState w ht) start end)
         = direct_state e start end w ht"
  using assms
  by (simp add: build_index_def merge_start_end_def merge_point_def new_PathfindingState_def
      direct_state_def direct_polys_def Let_def insertHead_def vpt_def new_Vertex_def)


lemma convert_direct:
  assumes "start \<noteq> end" and "opt \<noteq> 0"
    and "\<not> (gameId g = ''lsl5'' \<and> currentRoomNumber g = 660
            \<and> start = Point 67 131 \<and> end = Point 229 101)"
  shows "convert_polygon_set e g [] start end w ht opt = Some (Some (direct_state e start end w ht))"
proof -
  from assms(3) have nb: "\<not> (gameId g = ''lsl5'' \<and> currentRoomNumber g = 660
            \<and> Point 67 131 = start \<and> Point 229 101 = end)"
    by auto
  from assms(2) show ?thesis
    by (simp add: convert_polygon_set_def fixup_start_none fixup_end_none
        merge_direct [OF assms(1)] if_not_P [OF nb] del: One_nat_def)
qed

lemma direct_init:
  "AStar_init e (direct_state e start end w ht)
   = ([0], [], (direct_state e start end w ht)\<lparr>heap := direct_heap1 e start end\<rparr>)"
  by (simp add: AStar_init_def direct_state_def direct_heap1_def vpt_def new_Vertex_def)

lemma direct_no_edges:
  "\<not> VERTEX_HAS_EDGES direct_polys 0" "\<not> VERTEX_HAS_EDGES direct_polys (Suc 0)"
  by (simp_all add: VERTEX_HAS_EDGES_def CLIST_NEXT_def owner_def direct_polys_def clist_pos_def)

lemma direct_visible:
  "visible_vertices ((direct_state e start end w ht)\<lparr>heap := h\<rparr>) 0 = [1]"
  by (simp add: visible_vertices_def inside_def edge_breaks_def direct_no_edges direct_state_def)

lemma direct_step1:
  assumes "dist e start end < HUGE_DISTANCE"
  shows "AStar_step e True ([0], [], (direct_state e start end w ht)\<lparr>heap := direct_heap1 e start end\<rparr>)
         = Inr ([1], [0], (direct_state e start end w ht)\<lparr>heap := direct_heap2 e start end\<rparr>)"
proof -
  have fm: "find_min (direct_heap1 e start end) [0] 0 None HUGE_DISTANCE = Some 0"
    using assms by (simp add: direct_heap1_def)
  have vs: "visible_vertices ((direct_state e start end w ht)\<lparr>heap := direct_heap1 e start end\<rparr>) 0 = [Suc 0]"
    by (simp add: direct_visible)
  have ve: "vertex_end (direct_state e start end w ht) = Suc 0"
    by (simp add: direct_state_def)
  have rl: "relax e ((direct_state e start end w ht)\<lparr>heap := direct_heap1 e start end\<rparr>) True 0 [0] [Suc 0]
              ([], direct_heap1 e start end) = ([Suc 0], direct_heap2 e start end)"
    using assms
    by (simp add: relax_vertex_def Let_def direct_heap1_def direct_heap2_def vpt_def
        new_Vertex_def direct_state_def)
  show ?thesis
    by (simp add: AStar_step_def fm ve vs rl erase_def del: find_min.simps relax.simps)
qed

lemma direct_step2:
  assumes "dist e start end < HUGE_DISTANCE" and "dist e end end = 0"
  shows "AStar_step e True ([1], [0], (direct_state e start end w ht)\<lparr>heap := direct_heap2 e start end\<rparr>)
         = Inl (Inr ([1], [0], (direct_state e start end w ht)\<lparr>heap := direct_heap2 e start end\<rparr>))"
proof -
  have fm: "find_min (direct_heap2 e start end) [Suc 0] 0 None HUGE_DISTANCE = Some 0"
    using assms by (simp add: direct_heap2_def)
  have ve: "vertex_end (direct_state e start end w ht) = Suc 0"
    by (simp add: direct_state_def)
  show ?thesis
    by (simp add: AStar_step_def fm ve del: find_min.simps)
qed

lemma direct_AStar:
  assumes "dist e start end < HUGE_DISTANCE" and "dist e end end = 0"
  shows "AStar e (direct_state e start end w ht) True
         = Some (Inr ([1], [0], (direct_state e start end w ht)\<lparr>heap := direct_heap2 e start end\<rparr>))"
proof -
  let ?s1 = "(direct_state e start end w ht)\<lparr>heap := direct_heap1 e start end\<rparr>"
  let ?s2 = "(direct_state e start end w ht)\<lparr>heap := direct_heap2 e start end\<rparr>"
  have "loop_until (AStar_step e True) ([0], [], ?s1)
        = loop_until (AStar_step e True) ([1], [0], ?s2)"
    using direct_step1 [OF assms(1)] by (rule loop_until_Inr)
  also have "\<dots> = Some (Inr ([1], [0], ?s2))"
    using direct_step2 [OF assms] by (rule loop_until_Inl)
  finally show ?thesis by (simp only: AStar_def direct_init)
qed

lemma direct_output:
  "output_path ((direct_state e start end w ht)\<lparr>heap := direct_heap2 e start end\<rparr>)
   = Some [start, end, Point POLY_LAST_POINT POLY_LAST_POINT]"
proof -
  have 1: "path_step (direct_heap2 e start end) (Some 1, []) = Inr (Some 0, [1])"
    by (simp add: path_step_def direct_heap2_def)
  have 2: "path_step (direct_heap2 e start end) (Some 0, [1]) = Inr (None, [0, 1])"
    by (simp add: path_step_def direct_heap2_def)
  have 3: "path_step (direct_heap2 e start end) (None, [0, 1]) = Inl [0, 1]"
    by (simp add: path_step_def)
  have "loop_until (path_step (direct_heap2 e start end)) (Some 1, [])
        = loop_until (path_step (direct_heap2 e start end)) (Some 0, [1])"
    using 1 by (rule loop_until_Inr)
  also have "\<dots> = loop_until (path_step (direct_heap2 e start end)) (None, [0, 1])"
    using 2 by (rule loop_until_Inr)
  also have "\<dots> = Some [0, 1]"
    using 3 by (rule loop_until_Inl)
  finally have w: "path_walk (direct_heap2 e start end) 1 = Some [0, 1]"
    by (simp only: path_walk_def)
  have ve: "vertex_end (direct_state e start end w ht) = 1"
    by (simp add: direct_state_def)
  have pp: "path_prev (direct_heap2 e start end ! 1) = Some 0"
    by (simp add: direct_heap2_def)
  have pts: "vpt (direct_heap2 e start end) 0 = start" "vpt (direct_heap2 e start end) 1 = end"
    by (simp_all add: direct_heap2_def vpt_def)
  have pa: "prependPoint (direct_state e start end w ht) = None"
    "appendPoint (direct_state e start end w ht) = None"
    by (simp_all add: direct_state_def)
  show ?thesis
    by (simp add: output_path_def ve w pp pts pa del: One_nat_def)
qed

text \<open>
  Claim C2, as amended. For a scene without polygons, distinct start and end points and an
  optimization level other than 0 (so for the levels 1 and 2), the planning call returns the
  start point, the end point and the sentinel (0x7777, 0x7777), unless the game is
  \<open>lsl5\<close>, the room is 660, the start is (67, 131) and the end is (229, 101). The
  distance, a parameter of the model, is taken to be what it is in the code: below
  \<open>HUGE_DISTANCE\<close> and zero from a point to itself.
\<close>

theorem kAvoidPath_no_polygons:
  assumes "start \<noteq> end" and "opt \<noteq> 0"
    and "\<not> (gameId g = ''lsl5'' \<and> currentRoomNumber g = 660
            \<and> start = Point 67 131 \<and> end = Point 229 101)"
    and "dist e start end < HUGE_DISTANCE" and "dist e end end = 0"
  shows "kAvoidPath e g start end [] w ht opt
         = Some (Inr [start, end, Point POLY_LAST_POINT POLY_LAST_POINT])"
  by (simp add: kAvoidPath_def convert_direct [OF assms(1,2,3)] direct_AStar [OF assms(4,5)]
      direct_output)


theorem kAvoidPath_no_polygons_witness:
  "Point 0 0 \<noteq> Point 10 0 \<and> (1::int) \<noteq> 0
   \<and> \<not> (gameId ex_game = ''lsl5'' \<and> currentRoomNumber ex_game = 660
          \<and> Point 0 0 = Point 67 131 \<and> Point 10 0 = Point 229 101)
   \<and> dist ex_env (Point 0 0) (Point 10 0) < HUGE_DISTANCE
   \<and> dist ex_env (Point 10 0) (Point 10 0) = 0
   \<and> kAvoidPath ex_env ex_game (Point 0 0) (Point 10 0) [] 320 190 1
       = Some (Inr [Point 0 0, Point 10 0, Point 0x7777 0x7777])"
proof -
  have a: "Point 0 0 \<noteq> Point 10 0" by simp
  have b: "(1::int) \<noteq> 0" by simp
  have c: "\<not> (gameId ex_game = ''lsl5'' \<and> currentRoomNumber ex_game = 660
          \<and> Point 0 0 = Point 67 131 \<and> Point 10 0 = Point 229 101)"
    by simp
  have d: "dist ex_env (Point 0 0) (Point 10 0) < HUGE_DISTANCE" by code_simp
  have f: "dist ex_env (Point 10 0) (Point 10 0) = 0" by code_simp
  from a b c d f kAvoidPath_no_polygons [OF a b c d f, of 320 190] show ?thesis
    by (intro conjI)
qed

text \<open>
  The claim as stated fails in the excepted case: the workaround for room 660 of \<open>lsl5\<close>
  records the start point as the prepend point and starts the search at (77, 107), also in
  a scene without polygons, so the path has three points before the sentinel.
\<close>

theorem kAvoidPath_no_polygons_counterexample:
  "Point 67 131 \<noteq> Point 229 101
   \<and> kAvoidPath ex_env lsl5_game (Point 67 131) (Point 229 101) [] 320 190 1
       = Some (Inr [Point 67 131, Point 77 107, Point 229 101, Point 0x7777 0x7777])
   \<and> kAvoidPath ex_env lsl5_game (Point 67 131) (Point 229 101) [] 320 190 1
       \<noteq> Some (Inr [Point 67 131, Point 229 101, Point 0x7777 0x7777])"
proof -
  have a: "Point 67 131 \<noteq> Point 229 101" by simp
  have b: "kAvoidPath ex_env lsl5_game (Point 67 131) (Point 229 101) [] 320 190 1
       = Some (Inr [Point 67 131, Point 77 107, Point 229 101, Point 0x7777 0x7777])"
    by code_simp
  then have c: "kAvoidPath ex_env lsl5_game (Point 67 131) (Point 229 101) [] 320 190 1
       \<noteq> Some (Inr [Point 67 131, Point 229 101, Point 0x7777 0x7777])"
    by simp
  from a b c show ?thesis by (intro conjI)
qed

end
